theory Spec2Isabelle
  imports Complex_Main
begin

section \<open>RAP\_disjoint: the breakpoint search of \<^verbatim>\<open>src/Alg_disjoint.py\<close>\<close>

text \<open>
  The routine \<^verbatim>\<open>RAP_disjoint(R, b, lower_fixed, upper_fixed, lower_var, upper_var)\<close>
  is embedded over exact arithmetic: every Python number is a \<^typ>\<open>real\<close>, the
  two infinities that the source uses (\<^verbatim>\<open>math.inf\<close> as the initial best objective
  and as the candidate of an exhausted heap, \<^verbatim>\<open>-math.inf\<close> as the multiplier of a
  window whose lower bounds exceed the resource) are separate constructors, and every
  exception the interpreter can raise is a value of \<open>py_error\<close>.
\<close>

subsection \<open>Errors and Python list access\<close>

datatype py_error = ValueError | IndexError | ZeroDivisionError | TypeError

definition bnd :: "py_error + 'a \<Rightarrow> ('a \<Rightarrow> py_error + 'b) \<Rightarrow> py_error + 'b" where
  "bnd m f = (case m of Inl e \<Rightarrow> Inl e | Inr v \<Rightarrow> f v)"

text \<open>
  Python subscripts: for a list of \<open>len\<close> elements the index \<open>i\<close> names position \<open>i\<close>
  when \<open>0 \<le> i < len\<close>, position \<open>len + i\<close> when \<open>-len \<le> i < 0\<close>, and no position
  otherwise (\<^verbatim>\<open>IndexError\<close>).
\<close>

definition py_index :: "nat \<Rightarrow> int \<Rightarrow> nat option" where
  "py_index len i =
     (if 0 \<le> i \<and> i < int len then Some (nat i)
      else if - int len \<le> i \<and> i < 0 then Some (nat (int len + i))
      else None)"

definition py_get :: "'a list \<Rightarrow> int \<Rightarrow> py_error + 'a" where
  "py_get xs i = (case py_index (length xs) i of None \<Rightarrow> Inl IndexError | Some k \<Rightarrow> Inr (xs ! k))"

definition py_set :: "'a list \<Rightarrow> int \<Rightarrow> 'a \<Rightarrow> py_error + 'a list" where
  "py_set xs i v =
     (case py_index (length xs) i of None \<Rightarrow> Inl IndexError | Some k \<Rightarrow> Inr (xs[k := v]))"

text \<open>\<^verbatim>\<open>range(lo, hi)\<close> as the list of its integers.\<close>

definition py_range :: "int \<Rightarrow> int \<Rightarrow> int list" where
  "py_range lo hi = [lo..hi - 1]"

text \<open>
  \<^verbatim>\<open>for i in range(lo, hi): xs[i] = f(i)\<close>: the right-hand side is evaluated first,
  then the store; either can raise.
\<close>

fun assign_loop :: "(int \<Rightarrow> py_error + real) \<Rightarrow> int list \<Rightarrow> real list \<Rightarrow> py_error + real list" where
  "assign_loop f [] xs = Inr xs"
| "assign_loop f (i # is) xs =
     bnd (f i) (\<lambda>v. bnd (py_set xs i v) (\<lambda>xs'. assign_loop f is xs'))"

subsection \<open>The partition trunks\<close>

text \<open>
  \<^verbatim>\<open>itertools.combinations_with_replacement(pool, r)\<close> for \<open>r \<ge> 0\<close>, in the order
  in which itertools emits the tuples.
\<close>

fun combinations_with_replacement :: "'a list \<Rightarrow> nat \<Rightarrow> 'a list list" where
  "combinations_with_replacement xs 0 = [[]]"
| "combinations_with_replacement [] (Suc r) = []"
| "combinations_with_replacement (x # xs) (Suc r) =
     map (\<lambda>t. x # t) (combinations_with_replacement (x # xs) r)
     @ combinations_with_replacement xs (Suc r)"

text \<open>
  Lines 62--66: the trunk with its last element repeated (or \<open>-1\<close> for an empty
  trunk); the repeated element is the sliding cursor.
\<close>

definition partition_seed :: "int list \<Rightarrow> int list" where
  "partition_seed trunk =
     (if length trunk = 0 then trunk @ [-1] else trunk @ [last trunk])"

subsection \<open>Breakpoint heaps\<close>

text \<open>
  A heap entry is the Python list \<^verbatim>\<open>[breakpoint, index, tag]\<close>; Python compares
  such lists lexicographically. The source looks at a heap only through
  \<^verbatim>\<open>heap[0]\<close>, \<^verbatim>\<open>heappop\<close> and \<^verbatim>\<open>heappush\<close>, so a heap is kept here as the list
  of its entries in ascending order: its head is \<^verbatim>\<open>heap[0]\<close>, the least entry.
\<close>

type_synonym entry = "real \<times> int \<times> int"

definition entry_less :: "entry \<Rightarrow> entry \<Rightarrow> bool" where
  "entry_less x y =
     (case x of (v, i, g) \<Rightarrow> case y of (w, j, h) \<Rightarrow>
        v < w \<or> (v = w \<and> (i < j \<or> (i = j \<and> g < h))))"

fun heappush :: "entry list \<Rightarrow> entry \<Rightarrow> entry list" where
  "heappush [] x = [x]"
| "heappush (y # ys) x = (if entry_less x y then x # y # ys else y # heappush ys x)"

definition heapify :: "entry list \<Rightarrow> entry list" where
  "heapify xs = foldl heappush [] xs"

definition heappop :: "entry list \<Rightarrow> entry list" where
  "heappop h = tl h"

text \<open>
  Lines 118--132 and 134--148, the lazy deletion: while the top entry has tag 0 and its
  variable lies after the previous trunk boundary and before the cursor (strictly before
  for the lower heap, at or before for the upper heap), it is popped.
\<close>

fun discard_lower :: "int \<Rightarrow> int \<Rightarrow> entry list \<Rightarrow> entry list" where
  "discard_lower pb cur [] = []"
| "discard_lower pb cur ((v, i, g) # h) =
     (if pb < i \<and> i < cur \<and> g = 0 then discard_lower pb cur h else (v, i, g) # h)"

fun discard_upper :: "int \<Rightarrow> int \<Rightarrow> entry list \<Rightarrow> entry list" where
  "discard_upper pb cur [] = []"
| "discard_upper pb cur ((v, i, g) # h) =
     (if pb < i \<and> i \<le> cur \<and> g = 0 then discard_upper pb cur h else (v, i, g) # h)"

text \<open>The candidate of a heap: its least breakpoint, \<open>None\<close> for \<^verbatim>\<open>math.inf\<close>.\<close>

definition candidate :: "entry list \<Rightarrow> real option" where
  "candidate h = (case h of [] \<Rightarrow> None | e # _ \<Rightarrow> Some (fst e))"

subsection \<open>The state of the enumeration\<close>

text \<open>
  \<open>current_best_partition = partition_full\<close> stores a reference, and
  \<open>partition_full[-1] += 1\<close> updates the list in place. The partition lists therefore
  live in a store (\<open>objs\<close>, a map from addresses to lists, with \<open>n_objs\<close> the next
  free address); \<open>partition_full\<close> and \<open>current_best_partition\<close> are addresses into it. The counters
  \<open>HELP_num_lower_heap\<close> and \<open>HELP_num_upper_heap\<close> are the lengths of the two heaps
  at every point of the source and are read off the heaps.
\<close>

datatype mult = NegInf | Fin real

record state =
  objs :: "nat \<Rightarrow> int list"
  n_objs :: nat
  current_best_obj :: "real option"
  current_best_partition :: "nat option"
  current_best_mult :: "real option"
  partition_full :: nat
  lower_bounds :: "real list"
  upper_bounds :: "real list"
  lower_breakpoints :: "real list"
  upper_breakpoints :: "real list"
  HELP_var_Bounded :: real
  HELP_var_Free :: real
  HELP_var_num_free :: int
  HELP_var_value_Bound :: real
  heap_lower_BPs :: "entry list"
  heap_upper_BPs :: "entry list"
  HELP_feasible_check_lower :: real
  HELP_feasible_check_upper :: real

definition cur_partition :: "state \<Rightarrow> int list" where
  "cur_partition st = objs st (partition_full st)"

definition cursor :: "state \<Rightarrow> int" where
  "cursor st = last (cur_partition st)"

text \<open>Lines 121--124: the boundary before the sliding one.\<close>

definition HELP_part_bound :: "state \<Rightarrow> int" where
  "HELP_part_bound st =
     (let p = cur_partition st
      in if length p = 1 then -1 else p ! (length p - 2))"

subsection \<open>The breakpoint scan (lines 115--178)\<close>

text \<open>
  One round of \<^verbatim>\<open>while FLAG_found == 0\<close>. Both heaps are cleaned, the candidate is the
  smaller top. With both heaps exhausted the candidate is \<^verbatim>\<open>math.inf\<close>: the resource
  \<^verbatim>\<open>Bounded + num_free * inf - Free\<close> is then \<open>+inf\<close> for a positive count (the analytic
  branch), and \<open>nan\<close> or \<open>-inf\<close> otherwise, which fails both comparisons and leads to
  \<^verbatim>\<open>heap_upper_BPs[0]\<close> on an empty list. The analytic branch divides by the count.
\<close>

datatype scan_result = Found real real state | Advance state

definition analytic :: "real \<Rightarrow> state \<Rightarrow> py_error + scan_result" where
  "analytic R st =
     (if HELP_var_num_free st = 0 then Inl ZeroDivisionError
      else
        (let Opt_mult = (R - HELP_var_Bounded st + HELP_var_Free st) / of_int (HELP_var_num_free st);
             Obj_value = HELP_var_value_Bound st + of_int (HELP_var_num_free st) * Opt_mult ^ 2
         in Inr (Found Opt_mult Obj_value st)))"

definition free_lower :: "real list \<Rightarrow> state \<Rightarrow> py_error + scan_result" where
  "free_lower b st =
     (case heap_lower_BPs st of
        [] \<Rightarrow> Inl IndexError
      | e # h \<Rightarrow>
          (let HELP_index = fst (snd e)
           in bnd (py_get (lower_bounds st) HELP_index) (\<lambda>lb.
              bnd (py_get b HELP_index) (\<lambda>bi.
              Inr (Advance (st\<lparr>HELP_var_Bounded := HELP_var_Bounded st - lb,
                               HELP_var_Free := HELP_var_Free st + bi,
                               HELP_var_num_free := HELP_var_num_free st + 1,
                               HELP_var_value_Bound := HELP_var_value_Bound st - (lb + bi) ^ 2,
                               heap_lower_BPs := heappop (heap_lower_BPs st)\<rparr>))))))"

definition pin_upper :: "real list \<Rightarrow> state \<Rightarrow> py_error + scan_result" where
  "pin_upper b st =
     (case heap_upper_BPs st of
        [] \<Rightarrow> Inl IndexError
      | e # h \<Rightarrow>
          (let HELP_index = fst (snd e)
           in bnd (py_get (upper_bounds st) HELP_index) (\<lambda>ub.
              bnd (py_get b HELP_index) (\<lambda>bi.
              Inr (Advance (st\<lparr>HELP_var_Bounded := HELP_var_Bounded st + ub,
                               HELP_var_Free := HELP_var_Free st - bi,
                               HELP_var_num_free := HELP_var_num_free st - 1,
                               HELP_var_value_Bound := HELP_var_value_Bound st + (ub + bi) ^ 2,
                               heap_upper_BPs := heappop (heap_upper_BPs st)\<rparr>))))))"

definition scan_step :: "real \<Rightarrow> real list \<Rightarrow> state \<Rightarrow> py_error + scan_result" where
  "scan_step R b st0 =
     (let st = st0\<lparr>heap_lower_BPs := discard_lower (HELP_part_bound st0) (cursor st0) (heap_lower_BPs st0),
                   heap_upper_BPs := discard_upper (HELP_part_bound st0) (cursor st0) (heap_upper_BPs st0)\<rparr>;
          Candidate_BP_lower = candidate (heap_lower_BPs st);
          Candidate_BP_upper = candidate (heap_upper_BPs st)
      in case (Candidate_BP_lower, Candidate_BP_upper) of
           (None, None) \<Rightarrow>
             (if HELP_var_num_free st > 0 then analytic R st else Inl IndexError)
         | _ \<Rightarrow>
             (let Candidate_BP =
                    (case (Candidate_BP_lower, Candidate_BP_upper) of
                       (Some l, Some u) \<Rightarrow> min l u
                     | (Some l, None) \<Rightarrow> l
                     | (None, Some u) \<Rightarrow> u
                     | (None, None) \<Rightarrow> 0);
                  HELP_resource = HELP_var_Bounded st
                     + of_int (HELP_var_num_free st) * Candidate_BP - HELP_var_Free st
              in if HELP_resource = R then
                   Inr (Found Candidate_BP
                          (HELP_var_value_Bound st + of_int (HELP_var_num_free st) * Candidate_BP ^ 2) st)
                 else if HELP_resource > R then analytic R st
                 else if (case (Candidate_BP_lower, Candidate_BP_upper) of
                            (Some l, Some u) \<Rightarrow> l < u
                          | (Some l, None) \<Rightarrow> True
                          | _ \<Rightarrow> False)
                 then free_lower b st
                 else pin_upper b st))"

definition heap_size :: "state \<Rightarrow> nat" where
  "heap_size st = length (heap_lower_BPs st) + length (heap_upper_BPs st)"

lemma length_discard_lower: "length (discard_lower pb cur h) \<le> length h"
  by (induction pb cur h rule: discard_lower.induct) auto

lemma length_discard_upper: "length (discard_upper pb cur h) \<le> length h"
  by (induction pb cur h rule: discard_upper.induct) auto

lemma analytic_not_Advance: "analytic R st \<noteq> Inr (Advance st')"
  by (simp add: analytic_def Let_def)

lemma free_lower_Advance:
  "free_lower b st = Inr (Advance st') \<Longrightarrow>
     heap_lower_BPs st \<noteq> [] \<and> heap_lower_BPs st' = tl (heap_lower_BPs st)
     \<and> heap_upper_BPs st' = heap_upper_BPs st"
  by (auto simp: free_lower_def bnd_def heappop_def Let_def split: list.splits sum.splits)

lemma pin_upper_Advance:
  "pin_upper b st = Inr (Advance st') \<Longrightarrow>
     heap_upper_BPs st \<noteq> [] \<and> heap_upper_BPs st' = tl (heap_upper_BPs st)
     \<and> heap_lower_BPs st' = heap_lower_BPs st"
  by (auto simp: pin_upper_def bnd_def heappop_def Let_def split: list.splits sum.splits)

lemma scan_step_decreases:
  assumes "scan_step R b st = Inr (Advance st')"
  shows "heap_size st' < heap_size st"
proof -
  define hl where "hl = discard_lower (HELP_part_bound st) (cursor st) (heap_lower_BPs st)"
  define hu where "hu = discard_upper (HELP_part_bound st) (cursor st) (heap_upper_BPs st)"
  define st1 where "st1 = st\<lparr>heap_lower_BPs := hl, heap_upper_BPs := hu\<rparr>"
  have le: "length hl \<le> length (heap_lower_BPs st)" "length hu \<le> length (heap_upper_BPs st)"
    by (simp_all add: hl_def hu_def length_discard_lower length_discard_upper)
  have h1: "heap_lower_BPs st1 = hl" "heap_upper_BPs st1 = hu"
    by (simp_all add: st1_def)
  from assms have "free_lower b st1 = Inr (Advance st') \<or> pin_upper b st1 = Inr (Advance st')"
    unfolding scan_step_def Let_def hl_def [symmetric] hu_def [symmetric] st1_def [symmetric]
    by (auto simp: analytic_not_Advance split: option.splits if_splits prod.splits)
  then show ?thesis
  proof
    assume "free_lower b st1 = Inr (Advance st')"
    from free_lower_Advance [OF this] h1 le show ?thesis
      by (cases hl) (auto simp: heap_size_def)
  next
    assume "pin_upper b st1 = Inr (Advance st')"
    from pin_upper_Advance [OF this] h1 le show ?thesis
      by (cases hu) (auto simp: heap_size_def)
  qed
qed

function scan :: "real \<Rightarrow> real list \<Rightarrow> state \<Rightarrow> py_error + (real \<times> real \<times> state)" where
  "scan R b st =
     (case scan_step R b st of
        Inl e \<Rightarrow> Inl e
      | Inr (Found Opt_mult Obj_value st') \<Rightarrow> Inr (Opt_mult, Obj_value, st')
      | Inr (Advance st') \<Rightarrow> scan R b st')"
  by pat_completeness auto
termination
  by (relation "measure (\<lambda>(R, b, st). heap_size st)") (auto simp: scan_step_decreases)

declare scan.simps [simp del]

subsection \<open>Bound assignment of a partition (lines 68--85)\<close>

text \<open>
  \<^verbatim>\<open>for j in range(1, num_intervals - 2): for i in range(p[j-1] + off, p[j] + off): xs[i] = f(j)\<close>.
  The sweep uses \<open>off = 1\<close>, the final reconstruction \<open>off = 0\<close>.
\<close>

fun segments_loop :: "(int \<Rightarrow> py_error + real) \<Rightarrow> int \<Rightarrow> int list \<Rightarrow> int list \<Rightarrow> real list
    \<Rightarrow> py_error + real list" where
  "segments_loop f off p [] xs = Inr xs"
| "segments_loop f off p (j # js) xs =
     bnd (py_get p (j - 1)) (\<lambda>lo.
     bnd (py_get p j) (\<lambda>hi.
     bnd (assign_loop (\<lambda>i. f j) (py_range (lo + off) (hi + off)) xs) (\<lambda>xs'.
     segments_loop f off p js xs')))"

definition sweep_lower_bounds :: "nat \<Rightarrow> int \<Rightarrow> int list \<Rightarrow> real list \<Rightarrow> real list
    \<Rightarrow> py_error + real list" where
  "sweep_lower_bounds num_var num_intervals p lower_fixed lower_var =
     bnd (py_get p 0) (\<lambda>p0.
     bnd (assign_loop (\<lambda>i. py_get lower_var i) (py_range 0 (p0 + 1)) (replicate num_var 0)) (\<lambda>xs1.
     bnd (segments_loop (\<lambda>j. py_get lower_fixed (j - 1)) 1 p (py_range 1 (num_intervals - 2)) xs1) (\<lambda>xs2.
     bnd (py_get p (num_intervals - 2)) (\<lambda>pl.
     assign_loop (\<lambda>i. py_get lower_fixed (num_intervals - 2)) (py_range (pl + 1) (int num_var)) xs2))))"

definition sweep_upper_bounds :: "nat \<Rightarrow> int \<Rightarrow> int list \<Rightarrow> real list \<Rightarrow> real list
    \<Rightarrow> py_error + real list" where
  "sweep_upper_bounds num_var num_intervals p upper_fixed upper_var =
     bnd (py_get p 0) (\<lambda>p0.
     bnd (assign_loop (\<lambda>i. py_get upper_fixed 0) (py_range 0 (p0 + 1)) (replicate num_var 0)) (\<lambda>xs1.
     bnd (segments_loop (\<lambda>j. py_get upper_fixed j) 1 p (py_range 1 (num_intervals - 2)) xs1) (\<lambda>xs2.
     bnd (py_get p (num_intervals - 2)) (\<lambda>pl.
     assign_loop (\<lambda>i. py_get upper_var i) (py_range (pl + 1) (int num_var)) xs2))))"

subsection \<open>Start of a trunk (lines 62--106)\<close>

definition init_trunk :: "real list \<Rightarrow> real list \<Rightarrow> real list \<Rightarrow> real list \<Rightarrow> real list
    \<Rightarrow> int list \<Rightarrow> state \<Rightarrow> py_error + state" where
  "init_trunk b lower_fixed upper_fixed lower_var upper_var trunk st =
     (let num_var = length b;
          num_intervals = int (length lower_fixed) + 1;
          p = partition_seed trunk
      in bnd (sweep_lower_bounds num_var num_intervals p lower_fixed lower_var) (\<lambda>lb.
         bnd (sweep_upper_bounds num_var num_intervals p upper_fixed upper_var) (\<lambda>ub.
         (let lbp = map (\<lambda>i. lb ! i + b ! i) [0..<num_var];
              ubp = map (\<lambda>i. ub ! i + b ! i) [0..<num_var]
          in Inr (st\<lparr>objs := (objs st)(n_objs st := p),
                     n_objs := n_objs st + 1,
                     partition_full := n_objs st,
                     lower_bounds := lb,
                     upper_bounds := ub,
                     lower_breakpoints := lbp,
                     upper_breakpoints := ubp,
                     HELP_var_Bounded := sum_list lb,
                     HELP_var_Free := 0,
                     HELP_var_num_free := 0,
                     HELP_var_value_Bound := sum_list (map (\<lambda>i. (lbp ! i) ^ 2) [0..<num_var]),
                     heap_lower_BPs := heapify (map (\<lambda>i. (lbp ! i, int i, 0)) [0..<num_var]),
                     heap_upper_BPs := heapify (map (\<lambda>i. (ubp ! i, int i, 0)) [0..<num_var]),
                     HELP_feasible_check_lower := sum_list lb,
                     HELP_feasible_check_upper := sum_list ub\<rparr>)))))"

subsection \<open>One window: feasibility check, scan, best record (lines 110--184)\<close>

text \<open>
  Lines 181--184. The comparison stands inside the \<^verbatim>\<open>else\<close> branch of the feasibility
  check, after the scan. \<open>None\<close> as best objective is \<^verbatim>\<open>math.inf\<close>.
\<close>

definition compare_best :: "real \<Rightarrow> real \<Rightarrow> state \<Rightarrow> state" where
  "compare_best Opt_mult Obj_value st =
     (if (case current_best_obj st of None \<Rightarrow> True | Some c \<Rightarrow> Obj_value < c)
      then st\<lparr>current_best_obj := Some Obj_value,
              current_best_partition := Some (partition_full st),
              current_best_mult := Some Opt_mult\<rparr>
      else st)"

text \<open>The result \<open>None\<close> is the \<^verbatim>\<open>break\<close> of line 113.\<close>

definition evaluate_window :: "real \<Rightarrow> real list \<Rightarrow> state \<Rightarrow> py_error + (mult \<times> state) option" where
  "evaluate_window R b st =
     (if HELP_feasible_check_lower st > R then Inr (Some (NegInf, st))
      else if HELP_feasible_check_upper st < R then Inr None
      else bnd (scan R b st) (\<lambda>(Opt_mult, Obj_value, st').
             Inr (Some (Fin Opt_mult, compare_best Opt_mult Obj_value st'))))"

subsection \<open>Moving the cursor (lines 186--239)\<close>

definition mult_less :: "mult \<Rightarrow> real \<Rightarrow> bool" where
  "mult_less m x = (case m of NegInf \<Rightarrow> True | Fin v \<Rightarrow> v < x)"

definition less_mult :: "real \<Rightarrow> mult \<Rightarrow> bool" where
  "less_mult x m = (case m of NegInf \<Rightarrow> False | Fin v \<Rightarrow> x < v)"

text \<open>Line 187, \<^verbatim>\<open>partition_full[-1] += 1\<close>: the list in the store is changed.\<close>

definition advance_cursor :: "state \<Rightarrow> state" where
  "advance_cursor st =
     (let p = cur_partition st
      in st\<lparr>objs := (objs st)(partition_full st := butlast p @ [last p + 1])\<rparr>)"

text \<open>Lines 194--202: the variable's contribution under its old bounds is taken out.\<close>

definition first_update_round :: "real list \<Rightarrow> mult \<Rightarrow> int \<Rightarrow> state \<Rightarrow> py_error + state" where
  "first_update_round b Opt_mult HELP_index st =
     bnd (py_get (lower_breakpoints st) HELP_index) (\<lambda>lbp.
     bnd (py_get (upper_breakpoints st) HELP_index) (\<lambda>ubp.
     bnd (py_get (lower_bounds st) HELP_index) (\<lambda>lb.
     bnd (py_get (upper_bounds st) HELP_index) (\<lambda>ub.
     bnd (py_get b HELP_index) (\<lambda>bi.
     Inr (if mult_less Opt_mult lbp then
            st\<lparr>HELP_var_Bounded := HELP_var_Bounded st - lb,
                HELP_var_value_Bound := HELP_var_value_Bound st - (lb + bi) ^ 2\<rparr>
          else if less_mult lbp Opt_mult \<and> mult_less Opt_mult ubp then
            st\<lparr>HELP_var_Free := HELP_var_Free st - bi,
                HELP_var_num_free := HELP_var_num_free st - 1\<rparr>
          else
            st\<lparr>HELP_var_Bounded := HELP_var_Bounded st - ub,
                HELP_var_value_Bound := HELP_var_value_Bound st - (ub + bi) ^ 2\<rparr>))))))"

text \<open>
  Lines 205--222: the running feasibility sums drop the old bounds, the variable gets
  the bounds and breakpoints of the segment before the last one
  (\<^verbatim>\<open>lower_var[v]\<close> when there are two intervals, \<^verbatim>\<open>lower_fixed[-2]\<close> otherwise, and
  \<^verbatim>\<open>upper_fixed[-1]\<close>), and the sums take the new bounds.
\<close>

definition new_lower_bound :: "real list \<Rightarrow> real list \<Rightarrow> int \<Rightarrow> py_error + real" where
  "new_lower_bound lower_fixed lower_var HELP_index =
     (if length lower_fixed = 1 then py_get lower_var HELP_index else py_get lower_fixed (-2))"

definition recompute_bounds :: "real list \<Rightarrow> real list \<Rightarrow> real list \<Rightarrow> real list \<Rightarrow> int
    \<Rightarrow> state \<Rightarrow> py_error + state" where
  "recompute_bounds b lower_fixed upper_fixed lower_var HELP_index st =
     bnd (py_get (lower_bounds st) HELP_index) (\<lambda>lb_old.
     bnd (py_get (upper_bounds st) HELP_index) (\<lambda>ub_old.
     bnd (py_get b HELP_index) (\<lambda>bi.
     bnd (new_lower_bound lower_fixed lower_var HELP_index) (\<lambda>lb_new.
     bnd (py_set (lower_breakpoints st) HELP_index (lb_new + bi)) (\<lambda>lbps.
     bnd (py_get upper_fixed (-1)) (\<lambda>ub_new.
     bnd (py_set (upper_breakpoints st) HELP_index (ub_new + bi)) (\<lambda>ubps.
     bnd (py_set (lower_bounds st) HELP_index lb_new) (\<lambda>lbs.
     bnd (py_set (upper_bounds st) HELP_index ub_new) (\<lambda>ubs.
     Inr (st\<lparr>HELP_feasible_check_lower := HELP_feasible_check_lower st - lb_old + lb_new,
             HELP_feasible_check_upper := HELP_feasible_check_upper st - ub_old + ub_new,
             lower_breakpoints := lbps,
             upper_breakpoints := ubps,
             lower_bounds := lbs,
             upper_bounds := ubs\<rparr>))))))))))"

text \<open>Lines 224--239: the contribution under the new bounds is put back, with fresh heap entries of tag 1.\<close>

definition second_update_round :: "real list \<Rightarrow> mult \<Rightarrow> int \<Rightarrow> state \<Rightarrow> py_error + state" where
  "second_update_round b Opt_mult HELP_index st =
     bnd (py_get (lower_breakpoints st) HELP_index) (\<lambda>lbp.
     bnd (py_get (upper_breakpoints st) HELP_index) (\<lambda>ubp.
     bnd (py_get (lower_bounds st) HELP_index) (\<lambda>lb.
     bnd (py_get (upper_bounds st) HELP_index) (\<lambda>ub.
     bnd (py_get b HELP_index) (\<lambda>bi.
     Inr (if mult_less Opt_mult lbp then
            st\<lparr>HELP_var_Bounded := HELP_var_Bounded st + lb,
                HELP_var_value_Bound := HELP_var_value_Bound st + (lb + bi) ^ 2,
                heap_lower_BPs := heappush (heap_lower_BPs st) (lbp, HELP_index, 1),
                heap_upper_BPs := heappush (heap_upper_BPs st) (ubp, HELP_index, 1)\<rparr>
          else if less_mult lbp Opt_mult \<and> mult_less Opt_mult ubp then
            st\<lparr>HELP_var_Free := HELP_var_Free st + bi,
                HELP_var_num_free := HELP_var_num_free st + 1,
                heap_upper_BPs := heappush (heap_upper_BPs st) (ubp, HELP_index, 1)\<rparr>
          else
            st\<lparr>HELP_var_Bounded := HELP_var_Bounded st + ub,
                HELP_var_value_Bound := HELP_var_value_Bound st + (ub + bi) ^ 2\<rparr>))))))"

datatype flow = Break | Continue

definition update_partition :: "real list \<Rightarrow> real list \<Rightarrow> real list \<Rightarrow> real list \<Rightarrow> mult
    \<Rightarrow> state \<Rightarrow> py_error + (flow \<times> state)" where
  "update_partition b lower_fixed upper_fixed lower_var Opt_mult st0 =
     (let st = advance_cursor st0;
          HELP_index = cursor st
      in if HELP_index \<ge> int (length b) then Inr (Break, st)
         else
           bnd (first_update_round b Opt_mult HELP_index st) (\<lambda>st1.
           bnd (recompute_bounds b lower_fixed upper_fixed lower_var HELP_index st1) (\<lambda>st2.
           bnd (second_update_round b Opt_mult HELP_index st2) (\<lambda>st3.
           Inr (Continue, st3)))))"

text \<open>The body of \<^verbatim>\<open>while partition_full[-1] < num_var\<close> (lines 110--239).\<close>

definition window :: "real \<Rightarrow> real list \<Rightarrow> real list \<Rightarrow> real list \<Rightarrow> real list
    \<Rightarrow> state \<Rightarrow> py_error + (flow \<times> state)" where
  "window R b lower_fixed upper_fixed lower_var st =
     bnd (evaluate_window R b st) (\<lambda>r.
       case r of
         None \<Rightarrow> Inr (Break, st)
       | Some (Opt_mult, st') \<Rightarrow> update_partition b lower_fixed upper_fixed lower_var Opt_mult st')"

subsection \<open>The cursor loop terminates\<close>

text \<open>The scan touches the four running totals and the two heaps, nothing else.\<close>

definition scan_frame :: "state \<Rightarrow> state \<Rightarrow> bool" where
  "scan_frame st st' =
     (st' = st\<lparr>HELP_var_Bounded := HELP_var_Bounded st',
               HELP_var_Free := HELP_var_Free st',
               HELP_var_num_free := HELP_var_num_free st',
               HELP_var_value_Bound := HELP_var_value_Bound st',
               heap_lower_BPs := heap_lower_BPs st',
               heap_upper_BPs := heap_upper_BPs st'\<rparr>)"

lemma scan_frame_refl: "scan_frame st st"
  by (simp add: scan_frame_def)

lemma scan_frame_trans: "scan_frame st st' \<Longrightarrow> scan_frame st' st'' \<Longrightarrow> scan_frame st st''"
  unfolding scan_frame_def
  by (cases st, cases st', cases st'') simp

lemma scan_frame_heaps: "scan_frame st (st\<lparr>heap_lower_BPs := hl, heap_upper_BPs := hu\<rparr>)"
  by (simp add: scan_frame_def)

lemma analytic_frame: "analytic R st = Inr (Found m v st') \<Longrightarrow> st' = st"
  by (auto simp: analytic_def Let_def split: if_splits)

lemma free_lower_frame: "free_lower b st = Inr (Advance st') \<Longrightarrow> scan_frame st st'"
  by (auto simp: free_lower_def bnd_def Let_def scan_frame_def split: list.splits sum.splits)

lemma free_lower_not_Found: "free_lower b st \<noteq> Inr (Found m v st')"
  by (auto simp: free_lower_def bnd_def Let_def split: list.splits sum.splits)

lemma pin_upper_frame: "pin_upper b st = Inr (Advance st') \<Longrightarrow> scan_frame st st'"
  by (auto simp: pin_upper_def bnd_def Let_def scan_frame_def split: list.splits sum.splits)

lemma pin_upper_not_Found: "pin_upper b st \<noteq> Inr (Found m v st')"
  by (auto simp: pin_upper_def bnd_def Let_def split: list.splits sum.splits)

lemma scan_step_frame:
  assumes "scan_step R b st = Inr r"
  shows "scan_frame st (case r of Found m v st' \<Rightarrow> st' | Advance st' \<Rightarrow> st')"
proof -
  define st1 where "st1 = st\<lparr>heap_lower_BPs := discard_lower (HELP_part_bound st) (cursor st) (heap_lower_BPs st),
      heap_upper_BPs := discard_upper (HELP_part_bound st) (cursor st) (heap_upper_BPs st)\<rparr>"
  have f1: "scan_frame st st1"
    unfolding st1_def by (rule scan_frame_heaps)
  show ?thesis
  proof (cases r)
    case (Found m v st')
    with assms have "st' = st1"
      unfolding scan_step_def Let_def st1_def [symmetric]
      by (auto simp: free_lower_not_Found pin_upper_not_Found
               split: option.splits if_splits prod.splits dest: analytic_frame)
    with f1 Found show ?thesis by simp
  next
    case (Advance st')
    with assms have "free_lower b st1 = Inr (Advance st') \<or> pin_upper b st1 = Inr (Advance st')"
      unfolding scan_step_def Let_def st1_def [symmetric]
      by (auto simp: analytic_not_Advance split: option.splits if_splits prod.splits)
    then have "scan_frame st1 st'"
      by (auto dest: free_lower_frame pin_upper_frame)
    with f1 Advance show ?thesis
      by (auto intro: scan_frame_trans)
  qed
qed

lemma scan_frame: "scan R b st = Inr (m, v, st') \<Longrightarrow> scan_frame st st'"
proof (induction R b st rule: scan.induct)
  case (1 R b st)
  show ?case
  proof (cases "scan_step R b st")
    case (Inl e)
    with "1.prems" show ?thesis by (simp add: scan.simps)
  next
    case (Inr r)
    show ?thesis
    proof (cases r)
      case (Found m' v' st1)
      with Inr "1.prems" have "st' = st1" by (simp add: scan.simps)
      with scan_step_frame [OF Inr] Found show ?thesis by simp
    next
      case (Advance st1)
      with Inr "1.prems" have "scan R b st1 = Inr (m, v, st')" by (simp add: scan.simps)
      with "1.IH" Inr Advance have "scan_frame st1 st'" by simp
      moreover from scan_step_frame [OF Inr] Advance have "scan_frame st st1" by simp
      ultimately show ?thesis by (rule scan_frame_trans [rotated])
    qed
  qed
qed

lemma scan_frame_cursor: "scan_frame st st' \<Longrightarrow> cursor st' = cursor st"
  unfolding scan_frame_def cursor_def cur_partition_def
  by (cases st, cases st') simp

lemma compare_best_cursor: "cursor (compare_best m v st) = cursor st"
  by (simp add: compare_best_def cursor_def cur_partition_def)

lemma evaluate_window_cursor:
  "evaluate_window R b st = Inr (Some (m, st')) \<Longrightarrow> cursor st' = cursor st"
  by (auto simp: evaluate_window_def bnd_def compare_best_cursor
           split: if_splits sum.splits prod.splits dest!: scan_frame scan_frame_cursor)

lemma advance_cursor_cursor: "cursor (advance_cursor st) = cursor st + 1"
  by (simp add: advance_cursor_def cursor_def cur_partition_def Let_def)

lemma first_update_round_cursor:
  "first_update_round b m i st = Inr st' \<Longrightarrow> cursor st' = cursor st"
  by (auto simp: first_update_round_def bnd_def cursor_def cur_partition_def
           split: sum.splits if_splits)

lemma recompute_bounds_cursor:
  "recompute_bounds b lf uf lv i st = Inr st' \<Longrightarrow> cursor st' = cursor st"
  by (auto simp: recompute_bounds_def bnd_def cursor_def cur_partition_def
           split: sum.splits if_splits)

lemma second_update_round_cursor:
  "second_update_round b m i st = Inr st' \<Longrightarrow> cursor st' = cursor st"
  by (auto simp: second_update_round_def bnd_def cursor_def cur_partition_def
           split: sum.splits if_splits)

lemma update_partition_cursor:
  "update_partition b lf uf lv m st = Inr (fl, st') \<Longrightarrow> cursor st' = cursor st + 1"
  by (auto simp: update_partition_def bnd_def Let_def advance_cursor_cursor
           split: sum.splits if_splits
           dest!: first_update_round_cursor recompute_bounds_cursor second_update_round_cursor)

lemma window_cursor:
  "window R b lf uf lv st = Inr (Continue, st') \<Longrightarrow> cursor st' = cursor st + 1"
  by (auto simp: window_def bnd_def split: sum.splits option.splits
           dest!: evaluate_window_cursor update_partition_cursor)

subsection \<open>The loops over cursor positions and over trunks (lines 61 and 109)\<close>

function sweep :: "real \<Rightarrow> real list \<Rightarrow> real list \<Rightarrow> real list \<Rightarrow> real list
    \<Rightarrow> state \<Rightarrow> py_error + state" where
  "sweep R b lower_fixed upper_fixed lower_var st =
     (if cursor st < int (length b) then
        (case window R b lower_fixed upper_fixed lower_var st of
           Inl e \<Rightarrow> Inl e
         | Inr (Break, st') \<Rightarrow> Inr st'
         | Inr (Continue, st') \<Rightarrow> sweep R b lower_fixed upper_fixed lower_var st')
      else Inr st)"
  by pat_completeness auto
termination
  by (relation "measure (\<lambda>(R, b, lf, uf, lv, st). nat (int (length b) - cursor st))")
     (auto dest!: window_cursor)

declare sweep.simps [simp del]

fun trunks_loop :: "real \<Rightarrow> real list \<Rightarrow> real list \<Rightarrow> real list \<Rightarrow> real list \<Rightarrow> real list
    \<Rightarrow> int list list \<Rightarrow> state \<Rightarrow> py_error + state" where
  "trunks_loop R b lower_fixed upper_fixed lower_var upper_var [] st = Inr st"
| "trunks_loop R b lower_fixed upper_fixed lower_var upper_var (trunk # trunks) st =
     bnd (init_trunk b lower_fixed upper_fixed lower_var upper_var trunk st) (\<lambda>st1.
     bnd (sweep R b lower_fixed upper_fixed lower_var st1) (\<lambda>st2.
     trunks_loop R b lower_fixed upper_fixed lower_var upper_var trunks st2))"

text \<open>Lines 56--58; the fields of the current trunk are set by \<open>init_trunk\<close> before any use.\<close>

definition initial_state :: state where
  "initial_state =
     \<lparr>objs = (\<lambda>a. []), n_objs = 0,
      current_best_obj = None, current_best_partition = None, current_best_mult = None,
      partition_full = 0,
      lower_bounds = [], upper_bounds = [], lower_breakpoints = [], upper_breakpoints = [],
      HELP_var_Bounded = 0, HELP_var_Free = 0, HELP_var_num_free = 0, HELP_var_value_Bound = 0,
      heap_lower_BPs = [], heap_upper_BPs = [],
      HELP_feasible_check_lower = 0, HELP_feasible_check_upper = 0\<rparr>"

subsection \<open>The final answer (lines 242--266)\<close>

text \<open>
  The bounds are set again from \<open>current_best_partition\<close>, here with the ranges
  \<^verbatim>\<open>range(0, p[0])\<close>, \<^verbatim>\<open>range(p[j-1], p[j])\<close> for \<open>1 \<le> j < num_intervals - 2\<close> and
  \<^verbatim>\<open>range(p[num_intervals - 2], num_var)\<close>.
\<close>

definition final_lower_bounds :: "nat \<Rightarrow> int \<Rightarrow> int list \<Rightarrow> real list \<Rightarrow> real list
    \<Rightarrow> py_error + real list" where
  "final_lower_bounds num_var num_intervals p lower_fixed lower_var =
     bnd (py_get p 0) (\<lambda>p0.
     bnd (assign_loop (\<lambda>i. py_get lower_var i) (py_range 0 p0) (replicate num_var 0)) (\<lambda>xs1.
     bnd (segments_loop (\<lambda>j. py_get lower_fixed (j - 1)) 0 p (py_range 1 (num_intervals - 2)) xs1) (\<lambda>xs2.
     bnd (py_get p (num_intervals - 2)) (\<lambda>pl.
     assign_loop (\<lambda>i. py_get lower_fixed (num_intervals - 2)) (py_range pl (int num_var)) xs2))))"

definition final_upper_bounds :: "nat \<Rightarrow> int \<Rightarrow> int list \<Rightarrow> real list \<Rightarrow> real list
    \<Rightarrow> py_error + real list" where
  "final_upper_bounds num_var num_intervals p upper_fixed upper_var =
     bnd (py_get p 0) (\<lambda>p0.
     bnd (assign_loop (\<lambda>i. py_get upper_fixed 0) (py_range 0 p0) (replicate num_var 0)) (\<lambda>xs1.
     bnd (segments_loop (\<lambda>j. py_get upper_fixed j) 0 p (py_range 1 (num_intervals - 2)) xs1) (\<lambda>xs2.
     bnd (py_get p (num_intervals - 2)) (\<lambda>pl.
     assign_loop (\<lambda>i. py_get upper_var i) (py_range pl (int num_var)) xs2))))"

text \<open>
  Subscripting \<open>current_best_partition\<close> while it is still \<^verbatim>\<open>None\<close> raises
  \<^verbatim>\<open>TypeError\<close> (line 244), as does \<^verbatim>\<open>None - b[i]\<close> (line 265).
\<close>

definition Final_solution :: "real list \<Rightarrow> real list \<Rightarrow> real list \<Rightarrow> real list \<Rightarrow> real list
    \<Rightarrow> state \<Rightarrow> py_error + real list" where
  "Final_solution b lower_fixed upper_fixed lower_var upper_var st =
     (let num_var = length b;
          num_intervals = int (length lower_fixed) + 1
      in case current_best_partition st of
           None \<Rightarrow> Inl TypeError
         | Some a \<Rightarrow>
             bnd (final_lower_bounds num_var num_intervals (objs st a) lower_fixed lower_var) (\<lambda>lb.
             bnd (final_upper_bounds num_var num_intervals (objs st a) upper_fixed upper_var) (\<lambda>ub.
             (case current_best_mult st of
                None \<Rightarrow> (if num_var = 0 then Inr [] else Inl TypeError)
              | Some m \<Rightarrow> Inr (map (\<lambda>i. min (ub ! i) (max (lb ! i) (m - b ! i))) [0..<num_var])))))"

subsection \<open>The routine\<close>

text \<open>
  \<^verbatim>\<open>combinations_with_replacement(range(-1, num_var), num_intervals - 2)\<close> raises
  \<^verbatim>\<open>ValueError\<close> for a negative second argument, that is when \<open>lower_fixed\<close> is empty.
\<close>

definition enumerate :: "real \<Rightarrow> real list \<Rightarrow> real list \<Rightarrow> real list \<Rightarrow> real list \<Rightarrow> real list
    \<Rightarrow> py_error + state" where
  "enumerate R b lower_fixed upper_fixed lower_var upper_var =
     (let num_var = length b;
          num_intervals = int (length lower_fixed) + 1
      in if num_intervals - 2 < 0 then Inl ValueError
         else trunks_loop R b lower_fixed upper_fixed lower_var upper_var
                (combinations_with_replacement (py_range (-1) (int num_var)) (nat (num_intervals - 2)))
                initial_state)"

definition RAP_disjoint :: "real \<Rightarrow> real list \<Rightarrow> real list \<Rightarrow> real list \<Rightarrow> real list \<Rightarrow> real list
    \<Rightarrow> py_error + real list" where
  "RAP_disjoint R b lower_fixed upper_fixed lower_var upper_var =
     bnd (enumerate R b lower_fixed upper_fixed lower_var upper_var)
         (Final_solution b lower_fixed upper_fixed lower_var upper_var)"

section \<open>The problem the routine is documented to solve (lines 13--22)\<close>

text \<open>
  Minimise \<open>\<Sum>i. (x\<^sub>i + b\<^sub>i)\<^sup>2\<close> subject to \<open>\<Sum>i. x\<^sub>i = R\<close> and every \<open>x\<^sub>i\<close> in one of its
  intervals. Interval \<open>j\<close> (counted from 0) of variable \<open>i\<close> has the lower bound
  \<open>lower_var[i]\<close> for \<open>j = 0\<close> and \<open>lower_fixed[j - 1]\<close> otherwise, and the upper bound
  \<open>upper_var[i]\<close> for the last interval and \<open>upper_fixed[j]\<close> otherwise.
\<close>

definition objective :: "real list \<Rightarrow> real list \<Rightarrow> real" where
  "objective b x = sum_list (map (\<lambda>i. (x ! i + b ! i) ^ 2) [0..<length b])"

definition interval_lower :: "real list \<Rightarrow> real list \<Rightarrow> nat \<Rightarrow> nat \<Rightarrow> real" where
  "interval_lower lower_fixed lower_var i j = (if j = 0 then lower_var ! i else lower_fixed ! (j - 1))"

definition interval_upper :: "real list \<Rightarrow> real list \<Rightarrow> nat \<Rightarrow> nat \<Rightarrow> real" where
  "interval_upper upper_fixed upper_var i j =
     (if j = length upper_fixed then upper_var ! i else upper_fixed ! j)"

definition in_intervals :: "real list \<Rightarrow> real list \<Rightarrow> real list \<Rightarrow> real list \<Rightarrow> nat \<Rightarrow> real \<Rightarrow> bool" where
  "in_intervals lower_fixed upper_fixed lower_var upper_var i v =
     list_ex (\<lambda>j. interval_lower lower_fixed lower_var i j \<le> v
                 \<and> v \<le> interval_upper upper_fixed upper_var i j)
       [0..<length lower_fixed + 1]"

definition feasible :: "real \<Rightarrow> real list \<Rightarrow> real list \<Rightarrow> real list \<Rightarrow> real list \<Rightarrow> real list
    \<Rightarrow> real list \<Rightarrow> bool" where
  "feasible R b lower_fixed upper_fixed lower_var upper_var x =
     (length x = length b \<and> sum_list x = R
      \<and> list_all (\<lambda>i. in_intervals lower_fixed upper_fixed lower_var upper_var i (x ! i))
           [0..<length b])"

text \<open>The best record with the partition read through its reference.\<close>

definition best_record :: "state \<Rightarrow> real option \<times> int list option \<times> real option" where
  "best_record st =
     (current_best_obj st, map_option (objs st) (current_best_partition st), current_best_mult st)"

section \<open>The routine on concrete instances\<close>

text \<open>
  C1 (optimality against brute force, \<open>n \<le> 6\<close>, \<open>m \<le> 3\<close>). Instance: \<open>R = 3\<close>,
  \<open>b = [1, 0]\<close>, every variable in \<open>{0} \<union> [1, 3]\<close>. The routine returns \<open>[0, 3]\<close>, a
  feasible point of objective 10, while the assignment of both variables to the second
  interval has the feasible point \<open>[1, 2]\<close> of objective 8: the returned objective is
  not the minimum over the interval assignments. The enumeration itself records the
  objective 6 for the window it returns.
\<close>

theorem C1_returned_objective_not_minimal:
  "RAP_disjoint 3 [1, 0] [1] [0] [0, 0] [3, 3] = Inr [0, 3]
   \<and> feasible 3 [1, 0] [1] [0] [0, 0] [3, 3] [0, 3]
   \<and> objective [1, 0] [0, 3] = 10
   \<and> feasible 3 [1, 0] [1] [0] [0, 0] [3, 3] [1, 2]
   \<and> objective [1, 0] [1, 2] = 8
   \<and> map_sum id best_record (enumerate 3 [1, 0] [1] [0] [0, 0] [3, 3])
       = Inr (Some 6, Some [1], Some 3)"
  by code_simp

text \<open>
  C2 (the returned vector is feasible). Instance: \<open>R = 23/2\<close>, \<open>b = [2, 1, 0]\<close>, every
  variable in \<open>[0, 1] \<union> [2, 10]\<close>. The point \<open>[17/6, 23/6, 29/6]\<close> is feasible; it is the
  solution of the first window, which the enumeration records as best (objective
  \<open>841/12\<close>, multiplier \<open>29/6\<close>). The routine returns \<open>[1, 1, 29/6]\<close>, whose sum is \<open>41/6\<close>.
\<close>

theorem C2_returned_vector_infeasible:
  "RAP_disjoint (23 / 2) [2, 1, 0] [2] [1] [0, 0, 0] [10, 10, 10] = Inr [1, 1, 29 / 6]
   \<and> sum_list [1, 1, 29 / 6 :: real] = 41 / 6
   \<and> \<not> feasible (23 / 2) [2, 1, 0] [2] [1] [0, 0, 0] [10, 10, 10] [1, 1, 29 / 6]
   \<and> feasible (23 / 2) [2, 1, 0] [2] [1] [0, 0, 0] [10, 10, 10] [17 / 6, 23 / 6, 29 / 6]
   \<and> map_sum id best_record (enumerate (23 / 2) [2, 1, 0] [2] [1] [0, 0, 0] [10, 10, 10])
       = Inr (Some (841 / 12), Some [2], Some (29 / 6))"
  by code_simp

text \<open>
  C4 (the final reconstruction uses the bound assignment of the sweep). For the
  partition \<open>[0]\<close> of two variables and two intervals the sweep's assignment puts
  variable 0 into the first interval, the final one puts both variables into the last.
  On the instance \<open>R = 17/2\<close>, \<open>b = [1, 0]\<close>, intervals \<open>[1, 2] \<union> [3, 4] \<union> [5, 6]\<close>, the
  final bounds of variable 0 are \<open>[0, 0]\<close> and the routine returns \<open>[0, 5]\<close>.
\<close>

theorem C4_final_bounds_differ_from_sweep:
  "sweep_lower_bounds 2 2 [0] [2] [0, 0] = Inr [0, 2]
   \<and> final_lower_bounds 2 2 [0] [2] [0, 0] = Inr [2, 2]
   \<and> map_sum id best_record (enumerate (17 / 2) [1, 0] [3, 5] [2, 4] [1, 1] [6, 6])
       = Inr (Some (181 / 4), Some [-1, 1], Some (9 / 2))
   \<and> final_lower_bounds 2 3 [-1, 1] [3, 5] [1, 1] = Inr [0, 5]
   \<and> final_upper_bounds 2 3 [-1, 1] [2, 4] [6, 6] = Inr [0, 6]
   \<and> RAP_disjoint (17 / 2) [1, 0] [3, 5] [2, 4] [1, 1] [6, 6] = Inr [0, 5]
   \<and> feasible (17 / 2) [1, 0] [3, 5] [2, 4] [1, 1] [6, 6] [7 / 2, 5]"
  by code_simp

text \<open>
  C7 (the recorded best partition is a snapshot). Instance: \<open>R = 6\<close>, \<open>b = [1, 0]\<close>, every
  variable in \<open>[0, 1] \<union> [2, 10]\<close>. After the first window the best record holds the
  objective \<open>49/2\<close> and its partition reads \<open>[-1]\<close>; at the end of the enumeration the
  record still holds \<open>49/2\<close> and its partition reads \<open>[1]\<close>.
\<close>

theorem C7_best_partition_follows_cursor:
  "map_sum id best_record
     (bnd (init_trunk [1, 0] [2] [1] [0, 0] [10, 10] [] initial_state) (\<lambda>st.
      bnd (evaluate_window 6 [1, 0] st) (\<lambda>r.
        case r of Some (m, st') \<Rightarrow> Inr st' | None \<Rightarrow> Inr st)))
     = Inr (Some (49 / 2), Some [-1], Some (7 / 2))
   \<and> map_sum id best_record (enumerate 6 [1, 0] [2] [1] [0, 0] [10, 10])
     = Inr (Some (49 / 2), Some [1], Some (7 / 2))
   \<and> RAP_disjoint 6 [1, 0] [2] [1] [0, 0] [10, 10] = Inr [1, 7 / 2]"
  by code_simp

text \<open>
  C8 (the analytic branch never divides by zero). Instance: \<open>R = 4\<close>, \<open>b = [3, 0, 0]\<close>,
  every variable in \<open>[0, 1] \<union> {2}\<close>. The point \<open>[1, 1, 2]\<close> is feasible; the routine reaches
  the analytic branch with no free variable and raises \<^verbatim>\<open>ZeroDivisionError\<close>.
\<close>

theorem C8_division_by_zero_reached:
  "RAP_disjoint 4 [3, 0, 0] [2] [1] [0, 0, 0] [2, 2, 2] = Inl ZeroDivisionError
   \<and> feasible 4 [3, 0, 0] [2] [1] [0, 0, 0] [2, 2, 2] [1, 1, 2]"
  by code_simp

text \<open>
  C9 (single interval, \<open>b = [3, 1]\<close>, bounds \<open>[-5, 5]\<close>). For \<open>R = 0\<close> the closed-form
  solution is \<open>[-1, 1]\<close>, a feasible point of the instance; the routine raises
  \<^verbatim>\<open>ValueError\<close>.
\<close>

theorem C9_single_interval_counterexample:
  "RAP_disjoint 0 [3, 1] [] [] [-5, -5] [5, 5] = Inl ValueError
   \<and> feasible 0 [3, 1] [] [] [-5, -5] [5, 5] [-1, 1]"
  by code_simp

text \<open>
  C9, as the code has it: with an empty \<open>lower_fixed\<close> (one interval) the routine raises
  \<^verbatim>\<open>ValueError\<close> for every resource and every other input, since the trunks are
  requested with the length \<open>-1\<close>.
\<close>

theorem C9_single_interval_raises:
  "RAP_disjoint R b [] upper_fixed lower_var upper_var = Inl ValueError"
  by (simp add: RAP_disjoint_def enumerate_def bnd_def)

section \<open>The sliding update of one variable\<close>

text \<open>What a window shows of the state: the cursor and the four per-variable lists.\<close>

definition window_view :: "state \<Rightarrow> int \<times> real list \<times> real list \<times> real list \<times> real list" where
  "window_view st =
     (cursor st, lower_bounds st, upper_bounds st, lower_breakpoints st, upper_breakpoints st)"

text \<open>The state at the start of the only trunk of a two-interval instance.\<close>

definition first_state :: "real list \<Rightarrow> real list \<Rightarrow> real list \<Rightarrow> real list \<Rightarrow> real list \<Rightarrow> state" where
  "first_state b lower_fixed upper_fixed lower_var upper_var =
     projr (init_trunk b lower_fixed upper_fixed lower_var upper_var [] initial_state)"

lemma py_index_nonneg: "0 \<le> i \<Longrightarrow> py_index n i = (if nat i < n then Some (nat i) else None)"
  by (auto simp: py_index_def)

lemma py_get_Inr: "py_get xs i = Inr x \<Longrightarrow> 0 \<le> i \<Longrightarrow> nat i < length xs \<and> x = xs ! nat i"
  by (auto simp: py_get_def py_index_nonneg split: if_splits)

lemma py_set_Inr: "py_set xs i v = Inr ys \<Longrightarrow> 0 \<le> i \<Longrightarrow> nat i < length xs \<and> ys = xs[nat i := v]"
  by (auto simp: py_set_def py_index_nonneg split: if_splits)

lemma py_get_last: "py_get xs (- 1) = Inr x \<Longrightarrow> xs \<noteq> [] \<and> x = xs ! (length xs - 1)"
  by (auto simp: py_get_def py_index_def nat_diff_distrib split: if_splits)

lemma py_get_last_but_one: "py_get xs (- 2) = Inr x \<Longrightarrow> 2 \<le> length xs \<and> x = xs ! (length xs - 2)"
  by (auto simp: py_get_def py_index_def nat_diff_distrib split: if_splits)

lemma new_lower_bound_Inr:
  assumes "new_lower_bound lf lv i = Inr x" "0 \<le> i"
  shows "x = (if length lf = 1 then lv ! nat i else lf ! (length lf - 2))"
  using assms by (auto simp: new_lower_bound_def split: if_splits dest: py_get_Inr py_get_last_but_one)

lemma first_update_round_lists:
  "first_update_round b m i st = Inr st' \<Longrightarrow> window_view st' = window_view st"
  by (auto simp: first_update_round_def bnd_def window_view_def cursor_def cur_partition_def
      split: sum.splits if_splits)

lemma second_update_round_lists:
  "second_update_round b m i st = Inr st' \<Longrightarrow> window_view st' = window_view st"
  by (auto simp: second_update_round_def bnd_def window_view_def cursor_def cur_partition_def
      split: sum.splits if_splits)

lemma recompute_bounds_sets:
  assumes "recompute_bounds b lf uf lv i st = Inr st'" and "0 \<le> i"
  shows "nat i < length b
     \<and> lower_bounds st' ! nat i = (if length lf = 1 then lv ! nat i else lf ! (length lf - 2))
     \<and> upper_bounds st' ! nat i = uf ! (length uf - 1)
     \<and> lower_breakpoints st' ! nat i = lower_bounds st' ! nat i + b ! nat i
     \<and> upper_breakpoints st' ! nat i = upper_bounds st' ! nat i + b ! nat i"
proof -
  from assms(1) obtain lb_old ub_old bi lb_new lbps ub_new ubps lbs ubs where
    g: "py_get b i = Inr bi" "new_lower_bound lf lv i = Inr lb_new" "py_get uf (- 1) = Inr ub_new"
    and s: "py_set (lower_breakpoints st) i (lb_new + bi) = Inr lbps"
       "py_set (upper_breakpoints st) i (ub_new + bi) = Inr ubps"
       "py_set (lower_bounds st) i lb_new = Inr lbs"
       "py_set (upper_bounds st) i ub_new = Inr ubs"
    and r: "lower_breakpoints st' = lbps" "upper_breakpoints st' = ubps"
       "lower_bounds st' = lbs" "upper_bounds st' = ubs"
    by (auto simp: recompute_bounds_def bnd_def split: sum.splits)
  from py_get_Inr [OF g(1) assms(2)] have b: "nat i < length b" "bi = b ! nat i" by simp_all
  from new_lower_bound_Inr [OF g(2) assms(2)]
  have l: "lb_new = (if length lf = 1 then lv ! nat i else lf ! (length lf - 2))" .
  from py_get_last [OF g(3)] have u: "ub_new = uf ! (length uf - 1)" by simp
  from s assms(2) have
    "nat i < length (lower_breakpoints st) \<and> lbps = (lower_breakpoints st)[nat i := lb_new + bi]"
    "nat i < length (upper_breakpoints st) \<and> ubps = (upper_breakpoints st)[nat i := ub_new + bi]"
    "nat i < length (lower_bounds st) \<and> lbs = (lower_bounds st)[nat i := lb_new]"
    "nat i < length (upper_bounds st) \<and> ubs = (upper_bounds st)[nat i := ub_new]"
    by (auto dest: py_set_Inr)
  with r b l u show ?thesis by simp
qed

text \<open>
  C5, as the code has it. When the cursor moves from \<open>c\<close> to \<open>c + 1\<close>, the variable
  \<open>v = c + 1\<close> leaves the final segment and gets the bounds of segment \<open>m - 2\<close>, the one
  before the final segment: the lower bound \<open>lower_var[v]\<close> when \<open>m = 2\<close> and
  \<open>lower_fixed[m - 3]\<close> otherwise, the upper bound \<open>upper_fixed[m - 2]\<close>; its new
  breakpoints are these bounds plus \<open>b[v]\<close>.
\<close>

theorem C5_moved_variable_bounds:
  assumes "update_partition b lower_fixed upper_fixed lower_var Opt_mult st = Inr (Continue, st')"
    and "- 1 \<le> cursor st"
    and "m = length lower_fixed + 1"
    and "length upper_fixed = m - 1"
  shows "let v = nat (cursor st + 1) in
           cursor st' = int v \<and> v < length b
           \<and> lower_bounds st' ! v = (if m = 2 then lower_var ! v else lower_fixed ! (m - 3))
           \<and> upper_bounds st' ! v = upper_fixed ! (m - 2)
           \<and> lower_breakpoints st' ! v = lower_bounds st' ! v + b ! v
           \<and> upper_breakpoints st' ! v = upper_bounds st' ! v + b ! v"
proof -
  define i where "i = cursor (advance_cursor st)"
  have i: "i = cursor st + 1" "0 \<le> i"
    using assms(2) by (simp_all add: i_def advance_cursor_cursor)
  from assms(1) obtain st1 st2 where
    r1: "first_update_round b Opt_mult i (advance_cursor st) = Inr st1"
    and r2: "recompute_bounds b lower_fixed upper_fixed lower_var i st1 = Inr st2"
    and r3: "second_update_round b Opt_mult i st2 = Inr st'"
    by (auto simp: update_partition_def Let_def bnd_def i_def split: if_splits sum.splits)
  from second_update_round_lists [OF r3] have v: "window_view st' = window_view st2" .
  from update_partition_cursor [OF assms(1)] i have c: "cursor st' = int (nat i)" by simp
  from recompute_bounds_sets [OF r2 i(2)] v c i assms(3,4) show ?thesis
    by (auto simp: window_view_def Let_def)
qed

text \<open>
  The statement above at the two-interval instance \<open>b = [1, 0]\<close>, intervals
  \<open>[0, 1] \<union> [2, 10]\<close>, for the first move of the cursor.
\<close>

theorem C5_witness:
  "\<exists>st'. update_partition [1, 0] [2] [1] [0, 0] NegInf (first_state [1, 0] [2] [1] [0, 0] [10, 10]) = Inr (Continue, st')
     \<and> cursor st' = 0 \<and> lower_bounds st' ! 0 = 0 \<and> upper_bounds st' ! 0 = 1
     \<and> lower_breakpoints st' ! 0 = 1 \<and> upper_breakpoints st' ! 0 = 2"
proof -
  let ?st = "first_state [1, 0] [2] [1] [0, 0] [10, 10]"
  have "map_sum id fst (update_partition [1, 0] [2] [1] [0, 0] NegInf ?st) = Inr Continue"
    by code_simp
  then obtain st' where h: "update_partition [1, 0] [2] [1] [0, 0] NegInf ?st = Inr (Continue, st')"
    by (cases "update_partition [1, 0] [2] [1] [0, 0] NegInf ?st") auto
  have c: "- 1 \<le> cursor ?st" by code_simp
  have c1: "cursor ?st = - 1" by code_simp
  from C5_moved_variable_bounds [OF h c, of 2] c1 h show ?thesis
    by (auto simp: Let_def)
qed

text \<open>
  C5 as claimed (the new bounds of \<open>v\<close> are \<open>lower_fixed[m - 2]\<close> and \<open>upper_var[v]\<close>) fails
  on the same instance: after the first move \<open>v = 0\<close> has the bounds \<open>[0, 1]\<close>, that is
  \<open>lower_var[0]\<close> and \<open>upper_fixed[0]\<close>, while \<open>lower_fixed[0] = 2\<close> and
  \<open>upper_var[0] = 10\<close>; its breakpoints are 1 and 2.
\<close>

theorem C5_counterexample:
  "map_sum id (map_prod id window_view)
     (update_partition [1, 0] [2] [1] [0, 0] NegInf (first_state [1, 0] [2] [1] [0, 0] [10, 10]))
   = Inr (Continue, 0, [0, 2], [1, 10], [1, 2], [2, 10])"
  by code_simp

section \<open>The best record\<close>

definition best_fields :: "state \<Rightarrow> real option \<times> nat option \<times> real option" where
  "best_fields st = (current_best_obj st, current_best_partition st, current_best_mult st)"

text \<open>Multiplier and objective of a finished scan.\<close>

definition scan_value :: "real \<times> real \<times> state \<Rightarrow> real \<times> real" where
  "scan_value r = (fst r, fst (snd r))"

lemma scan_frame_best: "scan_frame st st' \<Longrightarrow> best_fields st' = best_fields st \<and> partition_full st' = partition_full st"
  unfolding scan_frame_def best_fields_def
  by (cases st, cases st') simp

lemma update_partition_best:
  "update_partition b lf uf lv m st = Inr (fl, st') \<Longrightarrow> best_fields st' = best_fields st"
  by (auto simp: update_partition_def bnd_def Let_def advance_cursor_def best_fields_def
        first_update_round_def recompute_bounds_def second_update_round_def
      split: sum.splits if_splits)

text \<open>
  C6. One pass through the body of the cursor loop. A window whose lower bounds sum to
  more than \<open>R\<close> (multiplier \<open>-inf\<close>) leaves the best record as it was, and so does the
  window that ends the loop. Otherwise the scan yields a multiplier and an objective,
  and the record is replaced by them and the current partition exactly when the
  objective is strictly below the incumbent (\<open>None\<close> is \<^verbatim>\<open>math.inf\<close>).
\<close>

theorem C6_tracker:
  assumes "window R b lf uf lv st = Inr (fl, st')"
  shows "if HELP_feasible_check_lower st > R \<or> HELP_feasible_check_upper st < R
         then best_fields st' = best_fields st
         else (\<exists>Opt_mult Obj_value st1. scan R b st = Inr (Opt_mult, Obj_value, st1)
                \<and> best_fields st' =
                    (if (case current_best_obj st of None \<Rightarrow> True | Some c \<Rightarrow> Obj_value < c)
                     then (Some Obj_value, Some (partition_full st), Some Opt_mult)
                     else best_fields st))"
proof (cases "HELP_feasible_check_lower st > R")
  case True
  with assms have "update_partition b lf uf lv NegInf st = Inr (fl, st')"
    by (simp add: window_def evaluate_window_def bnd_def)
  from update_partition_best [OF this] True show ?thesis by simp
next
  case low: False
  show ?thesis
  proof (cases "HELP_feasible_check_upper st < R")
    case True
    with low assms have "st' = st"
      by (simp add: window_def evaluate_window_def bnd_def)
    with True show ?thesis by simp
  next
    case False
    with low assms obtain m v st1 where sc: "scan R b st = Inr (m, v, st1)"
      and up: "update_partition b lf uf lv (Fin m) (compare_best m v st1) = Inr (fl, st')"
      by (auto simp: window_def evaluate_window_def bnd_def split: sum.splits)
    from scan_frame [OF sc] have fr: "best_fields st1 = best_fields st" "partition_full st1 = partition_full st"
      by (simp_all add: scan_frame_best)
    have "best_fields (compare_best m v st1) =
            (if (case current_best_obj st of None \<Rightarrow> True | Some c \<Rightarrow> v < c)
             then (Some v, Some (partition_full st), Some m) else best_fields st)"
      using fr by (auto simp: compare_best_def best_fields_def)
    with update_partition_best [OF up] sc low False show ?thesis by auto
  qed
qed

text \<open>
  The first window of the instance \<open>R = 6\<close>, \<open>b = [1, 0]\<close>, intervals \<open>[0, 1] \<union> [2, 10]\<close>:
  the scan gives the multiplier \<open>7/2\<close> and the objective \<open>49/2\<close>, which replace the empty
  record.
\<close>

theorem C6_witness:
  "\<exists>fl st'. window 6 [1, 0] [2] [1] [0, 0] (first_state [1, 0] [2] [1] [0, 0] [10, 10]) = Inr (fl, st')
     \<and> best_fields st' = (Some (49 / 2), Some 0, Some (7 / 2))"
proof -
  let ?st = "first_state [1, 0] [2] [1] [0, 0] [10, 10]"
  have "\<not> isl (window 6 [1, 0] [2] [1] [0, 0] ?st)"
    by code_simp
  then obtain fl st' where h: "window 6 [1, 0] [2] [1] [0, 0] ?st = Inr (fl, st')"
    by (cases "window 6 [1, 0] [2] [1] [0, 0] ?st") auto
  have f: "HELP_feasible_check_lower ?st = 4" "HELP_feasible_check_upper ?st = 20"
    "current_best_obj ?st = None" "partition_full ?st = 0"
    by code_simp+
  have s: "map_sum id scan_value (scan 6 [1, 0] ?st) = Inr (7 / 2, 49 / 2)"
    by code_simp
  from C6_tracker [OF h] f s h show ?thesis
    by (auto simp: scan_value_def)
qed

section \<open>Order of the heaps\<close>

text \<open>The lists that \<^verbatim>\<open>heapify\<close>, \<^verbatim>\<open>heappush\<close> and \<^verbatim>\<open>heappop\<close> can produce.\<close>

inductive is_heap :: "entry list \<Rightarrow> bool" where
  heap_heapify: "is_heap (heapify xs)"
| heap_push: "is_heap h \<Longrightarrow> is_heap (heappush h x)"
| heap_pop: "is_heap h \<Longrightarrow> is_heap (heappop h)"

definition entry_le :: "entry \<Rightarrow> entry \<Rightarrow> bool" where
  "entry_le x y = (\<not> entry_less y x)"


lemma entry_le_total: "entry_le x y \<or> entry_le y x"
  by (auto simp: entry_le_def entry_less_def split: prod.splits)






lemma is_heap_tail: "is_heap (x # h) \<Longrightarrow> is_heap h"
  using heap_pop [of "x # h"] by (simp add: heappop_def)

lemma is_heap_discard_lower: "is_heap h \<Longrightarrow> is_heap (discard_lower pb cur h)"
  by (induction pb cur h rule: discard_lower.induct) (auto dest: is_heap_tail)

lemma is_heap_discard_upper: "is_heap h \<Longrightarrow> is_heap (discard_upper pb cur h)"
  by (induction pb cur h rule: discard_upper.induct) (auto dest: is_heap_tail)

text \<open>
  The two heaps of every state that the start of a trunk, the scan and the cursor
  update produce are such lists.
\<close>

definition heaps_ok :: "state \<Rightarrow> bool" where
  "heaps_ok st = (is_heap (heap_lower_BPs st) \<and> is_heap (heap_upper_BPs st))"

lemma init_trunk_heaps: "init_trunk b lf uf lv uv trunk st = Inr st' \<Longrightarrow> heaps_ok st'"
  by (auto simp: init_trunk_def Let_def bnd_def heaps_ok_def heap_heapify split: sum.splits)

lemma scan_step_heaps:
  assumes "heaps_ok st" and "scan_step R b st = Inr r"
  shows "heaps_ok (case r of Found m v st' \<Rightarrow> st' | Advance st' \<Rightarrow> st')"
proof -
  define st1 where "st1 = st\<lparr>heap_lower_BPs := discard_lower (HELP_part_bound st) (cursor st) (heap_lower_BPs st),
      heap_upper_BPs := discard_upper (HELP_part_bound st) (cursor st) (heap_upper_BPs st)\<rparr>"
  have h1: "heaps_ok st1"
    using assms(1) by (simp add: st1_def heaps_ok_def is_heap_discard_lower is_heap_discard_upper)
  show ?thesis
  proof (cases r)
    case (Found m v st')
    with assms(2) have "st' = st1"
      unfolding scan_step_def Let_def st1_def [symmetric]
      by (auto simp: free_lower_not_Found pin_upper_not_Found
               split: option.splits if_splits prod.splits dest: analytic_frame)
    with h1 Found show ?thesis by simp
  next
    case (Advance st')
    with assms(2) have "free_lower b st1 = Inr (Advance st') \<or> pin_upper b st1 = Inr (Advance st')"
      unfolding scan_step_def Let_def st1_def [symmetric]
      by (auto simp: analytic_not_Advance split: option.splits if_splits prod.splits)
    then have "heaps_ok st'"
    proof
      assume "free_lower b st1 = Inr (Advance st')"
      from free_lower_Advance [OF this] h1 show ?thesis
        using heap_pop [of "heap_lower_BPs st1"] by (simp add: heaps_ok_def heappop_def)
    next
      assume "pin_upper b st1 = Inr (Advance st')"
      from pin_upper_Advance [OF this] h1 show ?thesis
        using heap_pop [of "heap_upper_BPs st1"] by (simp add: heaps_ok_def heappop_def)
    qed
    with Advance show ?thesis by simp
  qed
qed

lemma scan_heaps: "heaps_ok st \<Longrightarrow> scan R b st = Inr (m, v, st') \<Longrightarrow> heaps_ok st'"
proof (induction R b st rule: scan.induct)
  case (1 R b st)
  show ?case
  proof (cases "scan_step R b st")
    case (Inl e)
    with "1.prems" show ?thesis by (simp add: scan.simps)
  next
    case (Inr r)
    show ?thesis
    proof (cases r)
      case (Found m' v' st1)
      with Inr "1.prems" have "st' = st1" by (simp add: scan.simps)
      with scan_step_heaps [OF "1.prems"(1) Inr] Found show ?thesis by simp
    next
      case (Advance st1)
      with Inr "1.prems" have "scan R b st1 = Inr (m, v, st')" by (simp add: scan.simps)
      moreover from scan_step_heaps [OF "1.prems"(1) Inr] Advance have "heaps_ok st1" by simp
      ultimately show ?thesis using "1.IH" Inr Advance by simp
    qed
  qed
qed

lemma update_partition_heaps:
  "heaps_ok st \<Longrightarrow> update_partition b lf uf lv m st = Inr (fl, st') \<Longrightarrow> heaps_ok st'"
  by (auto simp: update_partition_def bnd_def Let_def advance_cursor_def heaps_ok_def
        first_update_round_def recompute_bounds_def second_update_round_def
      split: sum.splits if_splits intro: heap_push)

lemma window_heaps:
  assumes "heaps_ok st" and "window R b lf uf lv st = Inr (fl, st')"
  shows "heaps_ok st'"
proof (cases "evaluate_window R b st")
  case (Inl e)
  with assms(2) show ?thesis by (simp add: window_def bnd_def)
next
  case (Inr r)
  show ?thesis
  proof (cases r)
    case None
    with Inr assms show ?thesis by (simp add: window_def bnd_def)
  next
    case (Some ms)
    obtain m s where ms: "ms = (m, s)" by (cases ms)
    with Some Inr assms(2) have u: "update_partition b lf uf lv m s = Inr (fl, st')"
      by (simp add: window_def bnd_def)
    have "heaps_ok s"
    proof (cases "HELP_feasible_check_lower st > R")
      case True
      with Inr Some ms assms(1) show ?thesis by (simp add: evaluate_window_def)
    next
      case False
      with Inr Some ms obtain v ov st1 where sc: "scan R b st = Inr (v, ov, st1)"
        and s: "s = compare_best v ov st1"
        by (auto simp: evaluate_window_def bnd_def split: if_splits sum.splits)
      from scan_heaps [OF assms(1) sc] s show ?thesis
        by (simp add: heaps_ok_def compare_best_def)
    qed
    from update_partition_heaps [OF this u] show ?thesis .
  qed
qed




section \<open>Instances without a feasible window\<close>

subsection \<open>The trunks are the non-decreasing boundary sequences\<close>

text \<open>Over a strictly increasing pool the tuples are the sorted lists of pool elements.\<close>

lemma cwr_iff:
  "sorted xs \<Longrightarrow> distinct xs \<Longrightarrow>
     (t \<in> set (combinations_with_replacement xs r) \<longleftrightarrow> length t = r \<and> sorted t \<and> set t \<subseteq> set xs)"
proof (induction xs r arbitrary: t rule: combinations_with_replacement.induct)
  case (1 xs)
  then show ?case by auto
next
  case (2 r)
  then show ?case by auto
next
  case (3 x xs r)
  from "3.prems" have sx: "sorted xs" "distinct xs" and lt: "\<forall>y\<in>set xs. x < y"
    by (auto simp: less_le)
  show ?case
  proof
    assume "t \<in> set (combinations_with_replacement (x # xs) (Suc r))"
    then consider t' where "t = x # t'" "t' \<in> set (combinations_with_replacement (x # xs) r)"
      | "t \<in> set (combinations_with_replacement xs (Suc r))"
      by auto
    then show "length t = Suc r \<and> sorted t \<and> set t \<subseteq> set (x # xs)"
    proof cases
      case 1
      with "3.IH"(1) [OF "3.prems", of t'] "3.prems" show ?thesis by auto
    next
      case 2
      with "3.IH"(2) [OF sx, of t] show ?thesis by auto
    qed
  next
    assume a: "length t = Suc r \<and> sorted t \<and> set t \<subseteq> set (x # xs)"
    then obtain y t' where t: "t = y # t'" by (cases t) auto
    show "t \<in> set (combinations_with_replacement (x # xs) (Suc r))"
    proof (cases "y = x")
      case True
      with a t have "length t' = r \<and> sorted t' \<and> set t' \<subseteq> set (x # xs)" by auto
      with "3.IH"(1) [OF "3.prems", of t'] have "t' \<in> set (combinations_with_replacement (x # xs) r)"
        by simp
      with True t show ?thesis by simp
    next
      case False
      with a t have y: "y \<in> set xs" by auto
      with lt have "x < y" by simp
      with a t have "\<forall>z\<in>set t. x < z" by auto
      with a have "set t \<subseteq> set xs" by auto
      with a "3.IH"(2) [OF sx, of t] have "t \<in> set (combinations_with_replacement xs (Suc r))"
        by simp
      then show ?thesis by simp
    qed
  qed
qed

lemma py_range_set: "set (py_range lo hi) = {i. lo \<le> i \<and> i < hi}"
  by (auto simp: py_range_def)

lemma py_range_sorted: "sorted (py_range lo hi)" "distinct (py_range lo hi)"
  by (simp_all add: py_range_def)

lemma trunk_iff:
  "t \<in> set (combinations_with_replacement (py_range (- 1) (int n)) r)
     \<longleftrightarrow> length t = r \<and> sorted t \<and> (\<forall>q\<in>set t. - 1 \<le> q \<and> q < int n)"
  by (auto simp: cwr_iff py_range_sorted py_range_set)

subsection \<open>The bound assignment of a partition, as the specification states it\<close>

text \<open>
  Boundary \<open>j\<close> of a partition is the last variable of segment \<open>j\<close>, so variable \<open>i\<close> lies
  in the segment numbered by the count of boundaries below \<open>i\<close>. Segment 0 has the bounds
  \<open>lower_var[i]\<close> and \<open>upper_fixed[0]\<close>, segment \<open>j\<close> with \<open>1 \<le> j \<le> m - 2\<close> has
  \<open>lower_fixed[j - 1]\<close> and \<open>upper_fixed[j]\<close>, segment \<open>m - 1\<close> has \<open>lower_fixed[m - 2]\<close> and
  \<open>upper_var[i]\<close>: these are \<open>interval_lower\<close> and \<open>interval_upper\<close> of the segment.
\<close>

definition segment_of :: "int list \<Rightarrow> nat \<Rightarrow> nat" where
  "segment_of p i = length (filter (\<lambda>q. q < int i) p)"

definition partition_lower :: "real list \<Rightarrow> real list \<Rightarrow> int list \<Rightarrow> nat \<Rightarrow> real list" where
  "partition_lower lower_fixed lower_var p n =
     map (\<lambda>i. interval_lower lower_fixed lower_var i (segment_of p i)) [0..<n]"

definition partition_upper :: "real list \<Rightarrow> real list \<Rightarrow> int list \<Rightarrow> nat \<Rightarrow> real list" where
  "partition_upper upper_fixed upper_var p n =
     map (\<lambda>i. interval_upper upper_fixed upper_var i (segment_of p i)) [0..<n]"

subsection \<open>The assignment loops of the sweep compute it for a seed partition\<close>

lemma py_get_nat: "k < length xs \<Longrightarrow> py_get xs (int k) = Inr (xs ! k)"
  by (simp add: py_get_def py_index_def)

lemma py_set_nat: "k < length xs \<Longrightarrow> py_set xs (int k) v = Inr (xs[k := v])"
  by (simp add: py_set_def py_index_def)

lemma assign_loop_set:
  assumes "\<forall>i\<in>set is. 0 \<le> i \<and> nat i < length xs \<and> f i = Inr (g (nat i))"
  shows "assign_loop f is xs = Inr (map (\<lambda>k. if int k \<in> set is then g k else xs ! k) [0..<length xs])"
  using assms
proof (induction "is" arbitrary: xs)
  case Nil
  then show ?case by (simp add: map_nth)
next
  case (Cons i "is")
  from Cons.prems have i: "0 \<le> i" "nat i < length xs" "f i = Inr (g (nat i))" by auto
  then have s: "py_set xs i (g (nat i)) = Inr (xs[nat i := g (nat i)])"
    using py_set_nat [of "nat i" xs] by simp
  have "assign_loop f is (xs[nat i := g (nat i)]) =
          Inr (map (\<lambda>k. if int k \<in> set is then g k else xs[nat i := g (nat i)] ! k)
                 [0..<length (xs[nat i := g (nat i)])])"
    using Cons.prems by (intro Cons.IH) auto
  also have "map (\<lambda>k. if int k \<in> set is then g k else xs[nat i := g (nat i)] ! k)
                 [0..<length (xs[nat i := g (nat i)])]
           = map (\<lambda>k. if int k \<in> set (i # is) then g k else xs ! k) [0..<length xs]"
    using i by (auto simp: nth_list_update)
  finally show ?case using i s by (simp add: bnd_def)
qed

text \<open>A list that holds the target values up to position \<open>c\<close> and 0 after it.\<close>

definition filled :: "(nat \<Rightarrow> real) \<Rightarrow> int \<Rightarrow> nat \<Rightarrow> real list" where
  "filled T c n = map (\<lambda>k. if int k \<le> c then T k else 0) [0..<n]"

lemma filled_start: "filled T (- 1) n = replicate n 0"
  by (auto simp: filled_def intro: nth_equalityI)

lemma filled_all: "int n - 1 \<le> c \<Longrightarrow> filled T c n = map T [0..<n]"
  by (auto simp: filled_def)

lemma fill_segment:
  assumes "- 1 \<le> c" "c' < int n"
    and "\<forall>k. c < int k \<and> int k \<le> c' \<longrightarrow> f (int k) = Inr (T k)"
    and "c \<le> c'"
  shows "assign_loop f (py_range (c + 1) (c' + 1)) (filled T c n) = Inr (filled T c' n)"
proof -
  have "assign_loop f (py_range (c + 1) (c' + 1)) (filled T c n) =
     Inr (map (\<lambda>k. if int k \<in> set (py_range (c + 1) (c' + 1)) then T k else filled T c n ! k)
            [0..<length (filled T c n)])"
  proof (intro assign_loop_set ballI)
    fix i assume "i \<in> set (py_range (c + 1) (c' + 1))"
    then have i: "c < i" "i \<le> c'" by (auto simp: py_range_set)
    with assms(1) have "int (nat i) = i" by simp
    with assms(3) [rule_format, of "nat i"] i have "f i = Inr (T (nat i))" by simp
    with i assms(1,2) show "0 \<le> i \<and> nat i < length (filled T c n) \<and> f i = Inr (T (nat i))"
      by (simp add: filled_def)
  qed
  also have "map (\<lambda>k. if int k \<in> set (py_range (c + 1) (c' + 1)) then T k else filled T c n ! k)
            [0..<length (filled T c n)] = filled T c' n"
    using assms by (auto simp: py_range_set filled_def)
  finally show ?thesis .
qed

lemma py_range_Cons: "lo < hi \<Longrightarrow> py_range lo hi = lo # py_range (lo + 1) hi"
  by (simp add: py_range_def upto_rec1)

lemma py_range_Nil: "hi \<le> lo \<Longrightarrow> py_range lo hi = []"
  by (simp add: py_range_def)

lemma segments_fill:
  assumes "sorted p" "\<forall>q\<in>set p. - 1 \<le> q \<and> q < int n"
    and "j1 < length p"
    and "\<forall>j k. j0 < j \<and> j \<le> j1 \<and> p ! (j - 1) < int k \<and> int k \<le> p ! j \<longrightarrow> f (int j) = Inr (T k)"
    and "j0 \<le> j1"
  shows "segments_loop f 1 p (py_range (int j0 + 1) (int j1 + 1)) (filled T (p ! j0) n)
           = Inr (filled T (p ! j1) n)"
  using assms(4,5)
proof (induction "j1 - j0" arbitrary: j0)
  case 0
  then have "j0 = j1" by simp
  then show ?case by (simp add: py_range_Nil)
next
  case (Suc d)
  then have lt: "j0 < j1" by simp
  with assms(3) have l: "j0 < length p" "Suc j0 < length p" by simp_all
  have r: "py_range (int j0 + 1) (int j1 + 1) = (int j0 + 1) # py_range (int (Suc j0) + 1) (int j1 + 1)"
    using lt by (subst py_range_Cons) (simp_all add: add.commute)
  have g0: "py_get p (int j0 + 1 - 1) = Inr (p ! j0)"
    using py_get_nat [OF l(1)] by simp
  have g1: "py_get p (int j0 + 1) = Inr (p ! Suc j0)"
    using py_get_nat [OF l(2)] by (simp add: add.commute)
  have le: "p ! j0 \<le> p ! Suc j0"
    using assms(1) l by (simp add: sorted_iff_nth_mono)
  have rng: "- 1 \<le> p ! j0" "p ! Suc j0 < int n"
    using assms(2) l by (auto simp: all_set_conv_all_nth)
  have f: "\<forall>k. p ! j0 < int k \<and> int k \<le> p ! Suc j0 \<longrightarrow> f (int j0 + 1) = Inr (T k)"
  proof (intro allI impI)
    fix k assume "p ! j0 < int k \<and> int k \<le> p ! Suc j0"
    with Suc.prems(1) [rule_format, of "Suc j0" k] lt show "f (int j0 + 1) = Inr (T k)"
      by (simp add: add.commute)
  qed
  have step: "assign_loop (\<lambda>i. f (int j0 + 1)) (py_range (p ! j0 + 1) (p ! Suc j0 + 1)) (filled T (p ! j0) n)
        = Inr (filled T (p ! Suc j0) n)"
    using rng f le by (intro fill_segment) auto
  have ih: "segments_loop f 1 p (py_range (int (Suc j0) + 1) (int j1 + 1)) (filled T (p ! Suc j0) n)
        = Inr (filled T (p ! j1) n)"
    using Suc.hyps Suc.prems lt by (intro Suc.hyps(1)) auto
  show ?case
    using g0 g1 step ih by (simp add: r bnd_def)
qed

text \<open>In a sorted partition the segment of a variable is fixed by the two boundaries around it.\<close>

lemma filter_count_sorted:
  assumes "sorted p" "j \<le> length p"
    and "0 < j \<longrightarrow> p ! (j - 1) < x"
    and "j < length p \<longrightarrow> x \<le> p ! j"
  shows "length (filter (\<lambda>q. q < x) p) = j"
proof -
  have a: "\<forall>q\<in>set (take j p). q < x"
  proof
    fix q assume "q \<in> set (take j p)"
    then obtain i where i: "i < j" "i < length p" "q = p ! i"
      by (auto simp: in_set_conv_nth)
    with assms(1,2) have "p ! i \<le> p ! (j - 1)"
      by (intro sorted_nth_mono) auto
    with i assms(3) show "q < x" by auto
  qed
  have b: "\<forall>q\<in>set (drop j p). \<not> q < x"
  proof
    fix q assume "q \<in> set (drop j p)"
    then obtain i where "i < length p - j" "q = p ! (j + i)"
      by (auto simp: in_set_conv_nth)
    then have i: "j + i < length p" "q = p ! (j + i)" by simp_all
    with assms(1) have "p ! j \<le> p ! (j + i)"
      by (intro sorted_nth_mono) auto
    with i assms(4) show "\<not> q < x" by auto
  qed
  have "filter (\<lambda>q. q < x) p = filter (\<lambda>q. q < x) (take j p) @ filter (\<lambda>q. q < x) (drop j p)"
    by (metis append_take_drop_id filter_append)
  also have "\<dots> = take j p"
    using a b by (simp add: filter_id_conv filter_empty_conv)
  finally show ?thesis using assms(2) by simp
qed

text \<open>
  The three loops of lines 69--76 (and 78--85), for any right-hand sides that agree with
  a target \<open>T\<close> on the positions they write.
\<close>

lemma seed_bounds_generic:
  assumes m: "2 \<le> m" and p: "length p = m - 1" "sorted p" "\<forall>q\<in>set p. - 1 \<le> q \<and> q < int n"
    and seed: "p ! (m - 2) = p ! (m - 3)"
    and first: "\<forall>k. int k \<le> p ! 0 \<longrightarrow> first (int k) = Inr (T k)"
    and middle: "\<forall>j k. 0 < j \<and> j \<le> m - 3 \<and> p ! (j - 1) < int k \<and> int k \<le> p ! j
                   \<longrightarrow> middle (int j) = Inr (T k)"
    and last: "\<forall>k. p ! (m - 2) < int k \<and> k < n \<longrightarrow> lastf (int k) = Inr (T k)"
  shows "bnd (py_get p 0) (\<lambda>p0.
         bnd (assign_loop first (py_range 0 (p0 + 1)) (replicate n 0)) (\<lambda>xs1.
         bnd (segments_loop middle 1 p (py_range 1 (int m - 2)) xs1) (\<lambda>xs2.
         bnd (py_get p (int m - 2)) (\<lambda>pl.
         assign_loop lastf (py_range (pl + 1) (int n)) xs2))))
       = Inr (map T [0..<n])"
proof -
  have l0: "0 < length p" "m - 2 < length p" "m - 3 < length p" using m p(1) by simp_all
  have rng: "- 1 \<le> p ! 0" "p ! 0 < int n" "- 1 \<le> p ! (m - 2)" "p ! (m - 2) < int n"
    using p(3) l0 by (auto simp: all_set_conv_all_nth)
  have g0: "py_get p 0 = Inr (p ! 0)"
    using py_get_nat [OF l0(1)] by simp
  have gl: "py_get p (int m - 2) = Inr (p ! (m - 2))"
    using py_get_nat [OF l0(2)] m by (simp add: of_nat_diff)
  have s1: "assign_loop first (py_range 0 (p ! 0 + 1)) (replicate n 0) = Inr (filled T (p ! 0) n)"
    using fill_segment [of "- 1" "p ! 0" n first T] rng first by (simp add: filled_start)
  have s2: "segments_loop middle 1 p (py_range 1 (int m - 2)) (filled T (p ! 0) n)
              = Inr (filled T (p ! (m - 3)) n)"
  proof (cases "m = 2")
    case True
    then show ?thesis by (simp add: py_range_Nil)
  next
    case False
    with m have m3: "3 \<le> m" by simp
    have "segments_loop middle 1 p (py_range (int 0 + 1) (int (m - 3) + 1)) (filled T (p ! 0) n)
              = Inr (filled T (p ! (m - 3)) n)"
      using p l0 middle by (intro segments_fill) auto
    moreover have "int (m - 3) + 1 = int m - 2" using m3 by (simp add: of_nat_diff)
    ultimately show ?thesis by simp
  qed
  have s3: "assign_loop lastf (py_range (p ! (m - 2) + 1) (int n)) (filled T (p ! (m - 2)) n)
              = Inr (map T [0..<n])"
  proof -
    have "assign_loop lastf (py_range (p ! (m - 2) + 1) ((int n - 1) + 1)) (filled T (p ! (m - 2)) n)
              = Inr (filled T (int n - 1) n)"
      using rng last by (intro fill_segment) auto
    then show ?thesis by (simp add: filled_all)
  qed
  show ?thesis
    using g0 gl s1 s2 s3 seed by (simp add: bnd_def)
qed

text \<open>The cursor at the start of a trunk, and what the enumeration guarantees of a trunk.\<close>

definition seed_cursor :: "int list \<Rightarrow> int" where
  "seed_cursor trunk = (if trunk = [] then - 1 else last trunk)"

lemma partition_seed_eq: "partition_seed trunk = trunk @ [seed_cursor trunk]"
  by (simp add: partition_seed_def seed_cursor_def)

definition trunk_ok :: "nat \<Rightarrow> nat \<Rightarrow> int list \<Rightarrow> bool" where
  "trunk_ok n m trunk = (length trunk = m - 2 \<and> sorted trunk \<and> list_all (\<lambda>q. - 1 \<le> q \<and> q < int n) trunk)"

lemma seed_cursor_props:
  assumes "trunk_ok n m trunk"
  shows "\<forall>q\<in>set trunk. q \<le> seed_cursor trunk" "- 1 \<le> seed_cursor trunk" "seed_cursor trunk < int n"
proof -
  show "\<forall>q\<in>set trunk. q \<le> seed_cursor trunk"
  proof (cases "trunk = []")
    case True then show ?thesis by simp
  next
    case False
    then have "trunk = butlast trunk @ [last trunk]" by simp
    with assms have "sorted (butlast trunk @ [last trunk])" by (simp add: trunk_ok_def)
    then have "\<forall>q\<in>set (butlast trunk). q \<le> last trunk" by (simp add: sorted_append)
    moreover have "set trunk = insert (last trunk) (set (butlast trunk))"
      using False by (metis append_butlast_last_id list.simps(15) rotate1.simps(2) set_rotate1)
    ultimately show ?thesis using False by (auto simp: seed_cursor_def)
  qed
  show "- 1 \<le> seed_cursor trunk" "seed_cursor trunk < int n"
    using assms by (auto simp: seed_cursor_def trunk_ok_def list_all_iff)
qed

lemma seed_props:
  assumes "2 \<le> m" "trunk_ok n m trunk"
  shows "length (partition_seed trunk) = m - 1" "sorted (partition_seed trunk)"
    "\<forall>q\<in>set (partition_seed trunk). - 1 \<le> q \<and> q < int n"
    "partition_seed trunk ! (m - 2) = partition_seed trunk ! (m - 3)"
proof -
  note c = seed_cursor_props [OF assms(2)]
  show "length (partition_seed trunk) = m - 1"
    using assms by (simp add: partition_seed_eq trunk_ok_def)
  show "sorted (partition_seed trunk)"
    using assms c by (simp add: partition_seed_eq trunk_ok_def sorted_append)
  show "\<forall>q\<in>set (partition_seed trunk). - 1 \<le> q \<and> q < int n"
    using assms c by (auto simp: partition_seed_eq trunk_ok_def list_all_iff)
  show "partition_seed trunk ! (m - 2) = partition_seed trunk ! (m - 3)"
  proof (cases "trunk = []")
    case True
    with assms have "m = 2" by (simp add: trunk_ok_def)
    then show ?thesis by simp
  next
    case False
    then have "0 < length trunk" by simp
    with assms have l: "length trunk = m - 2" "3 \<le> m" by (auto simp: trunk_ok_def)
    then have "m - 3 = length trunk - 1" by simp
    with False l show ?thesis
      by (simp add: partition_seed_eq seed_cursor_def nth_append last_conv_nth)
  qed
qed

lemma segment_of_sorted:
  assumes "sorted p" "j \<le> length p"
    and "0 < j \<longrightarrow> p ! (j - 1) < int k"
    and "j < length p \<longrightarrow> int k \<le> p ! j"
  shows "segment_of p k = j"
  unfolding segment_of_def using assms by (rule filter_count_sorted)

lemma sweep_lower_bounds_seed:
  assumes m: "2 \<le> m" and len: "length lower_fixed = m - 1" "length lower_var = n"
    and t: "trunk_ok n m trunk"
  shows "sweep_lower_bounds n (int m) (partition_seed trunk) lower_fixed lower_var
           = Inr (partition_lower lower_fixed lower_var (partition_seed trunk) n)"
proof -
  define p where "p = partition_seed trunk"
  note sp = seed_props [OF m t, folded p_def]
  define T where "T = (\<lambda>k. interval_lower lower_fixed lower_var k (segment_of p k))"
  have l0: "0 < length p" "m - 2 < length p" using m sp(1) by simp_all
  have top: "p ! 0 < int n" using sp(3) l0 by (auto simp: all_set_conv_all_nth)
  have first: "\<forall>k. int k \<le> p ! 0 \<longrightarrow> py_get lower_var (int k) = Inr (T k)"
  proof (intro allI impI)
    fix k assume k: "int k \<le> p ! 0"
    with top len have "k < length lower_var" by simp
    moreover from k sp have "segment_of p k = 0" by (intro segment_of_sorted) auto
    ultimately show "py_get lower_var (int k) = Inr (T k)"
      by (simp add: py_get_nat T_def interval_lower_def)
  qed
  have middle: "\<forall>j k. 0 < j \<and> j \<le> m - 3 \<and> p ! (j - 1) < int k \<and> int k \<le> p ! j
                   \<longrightarrow> py_get lower_fixed (int j - 1) = Inr (T k)"
  proof (intro allI impI)
    fix j k assume a: "0 < j \<and> j \<le> m - 3 \<and> p ! (j - 1) < int k \<and> int k \<le> p ! j"
    with sp have "segment_of p k = j" by (intro segment_of_sorted) auto
    moreover from a have "j - 1 < m - 1" by arith
    with len have "j - 1 < length lower_fixed" by simp
    then have "py_get lower_fixed (int (j - 1)) = Inr (lower_fixed ! (j - 1))" by (rule py_get_nat)
    moreover from a have "int (j - 1) = int j - 1" by simp
    ultimately show "py_get lower_fixed (int j - 1) = Inr (T k)"
      using a by (simp add: T_def interval_lower_def)
  qed
  have last: "\<forall>k. p ! (m - 2) < int k \<and> k < n \<longrightarrow> py_get lower_fixed (int m - 2) = Inr (T k)"
  proof (intro allI impI)
    fix k assume a: "p ! (m - 2) < int k \<and> k < n"
    from sp(1) m have "length p - 1 = m - 2" by simp
    with a have "p ! (length p - 1) < int k" by simp
    with sp(2) have "segment_of p k = length p" by (intro segment_of_sorted) auto
    then have "segment_of p k = length p" .
    moreover from m len have "py_get lower_fixed (int (m - 2)) = Inr (lower_fixed ! (m - 2))"
      by (intro py_get_nat) simp
    moreover from m have "int (m - 2) = int m - 2" by simp
    moreover have "m - Suc (Suc 0) = m - 2" by simp
    ultimately show "py_get lower_fixed (int m - 2) = Inr (T k)"
      using m sp(1) by (simp add: T_def interval_lower_def)
  qed
  have "sweep_lower_bounds n (int m) p lower_fixed lower_var = Inr (map T [0..<n])"
    unfolding sweep_lower_bounds_def
    using m sp first middle last
    by (intro seed_bounds_generic [where first = "\<lambda>i. py_get lower_var i"
          and middle = "\<lambda>j. py_get lower_fixed (j - 1)"]) auto
  then show ?thesis by (simp add: p_def T_def partition_lower_def)
qed

lemma sweep_upper_bounds_seed:
  assumes m: "2 \<le> m" and len: "length upper_fixed = m - 1" "length upper_var = n"
    and t: "trunk_ok n m trunk"
  shows "sweep_upper_bounds n (int m) (partition_seed trunk) upper_fixed upper_var
           = Inr (partition_upper upper_fixed upper_var (partition_seed trunk) n)"
proof -
  define p where "p = partition_seed trunk"
  note sp = seed_props [OF m t, folded p_def]
  define T where "T = (\<lambda>k. interval_upper upper_fixed upper_var k (segment_of p k))"
  have l0: "0 < length p" "m - 2 < length p" using m sp(1) by simp_all
  have u0: "py_get upper_fixed 0 = Inr (upper_fixed ! 0)"
    using py_get_nat [of 0 upper_fixed] m len by simp
  have first: "\<forall>k. int k \<le> p ! 0 \<longrightarrow> py_get upper_fixed 0 = Inr (T k)"
  proof (intro allI impI)
    fix k assume k: "int k \<le> p ! 0"
    with sp have "segment_of p k = 0" by (intro segment_of_sorted) auto
    then show "py_get upper_fixed 0 = Inr (T k)"
      using u0 m len by (simp add: T_def interval_upper_def)
  qed
  have middle: "\<forall>j k. 0 < j \<and> j \<le> m - 3 \<and> p ! (j - 1) < int k \<and> int k \<le> p ! j
                   \<longrightarrow> py_get upper_fixed (int j) = Inr (T k)"
  proof (intro allI impI)
    fix j k assume a: "0 < j \<and> j \<le> m - 3 \<and> p ! (j - 1) < int k \<and> int k \<le> p ! j"
    with sp have "segment_of p k = j" by (intro segment_of_sorted) auto
    moreover from a have jm: "j < m - 1" by arith
    with len have "j < length upper_fixed" by simp
    then have "py_get upper_fixed (int j) = Inr (upper_fixed ! j)" by (rule py_get_nat)
    ultimately show "py_get upper_fixed (int j) = Inr (T k)"
      using jm len by (simp add: T_def interval_upper_def)
  qed
  have last: "\<forall>k. p ! (m - 2) < int k \<and> k < n \<longrightarrow> py_get upper_var (int k) = Inr (T k)"
  proof (intro allI impI)
    fix k assume a: "p ! (m - 2) < int k \<and> k < n"
    from sp(1) m have "length p - 1 = m - 2" by simp
    with a have "p ! (length p - 1) < int k" by simp
    with sp(2) have "segment_of p k = length p" by (intro segment_of_sorted) auto
    then show "py_get upper_var (int k) = Inr (T k)"
      using a len sp(1) by (simp add: py_get_nat T_def interval_upper_def)
  qed
  have "sweep_upper_bounds n (int m) p upper_fixed upper_var = Inr (map T [0..<n])"
    unfolding sweep_upper_bounds_def
    using m sp first middle last
    by (intro seed_bounds_generic [where first = "\<lambda>i. py_get upper_fixed 0"
          and middle = "\<lambda>j. py_get upper_fixed j"]) auto
  then show ?thesis by (simp add: p_def T_def partition_upper_def)
qed

subsection \<open>Moving the cursor keeps the bound assignment and the running sums\<close>

lemma sum_list_update_real: "k < length xs \<Longrightarrow> sum_list (xs[k := (y::real)]) = sum_list xs - xs ! k + y"
  by (induction xs arbitrary: k) (auto split: nat.splits)

lemma scan_frame_fields:
  assumes "scan_frame st st'"
  shows "objs st' = objs st" "partition_full st' = partition_full st"
    "lower_bounds st' = lower_bounds st" "upper_bounds st' = upper_bounds st"
    "lower_breakpoints st' = lower_breakpoints st" "upper_breakpoints st' = upper_breakpoints st"
    "HELP_feasible_check_lower st' = HELP_feasible_check_lower st"
    "HELP_feasible_check_upper st' = HELP_feasible_check_upper st"
    "best_fields st' = best_fields st"
  using assms unfolding scan_frame_def best_fields_def
  by (cases st, cases st', simp)+

lemma first_update_round_frame: "first_update_round b m i st = Inr st' \<Longrightarrow> scan_frame st st'"
  by (auto simp: first_update_round_def bnd_def scan_frame_def split: sum.splits if_splits)

lemma second_update_round_frame: "second_update_round b m i st = Inr st' \<Longrightarrow> scan_frame st st'"
  by (auto simp: second_update_round_def bnd_def scan_frame_def split: sum.splits if_splits)

lemma first_update_round_ok:
  assumes "k < length (lower_breakpoints st)" "k < length (upper_breakpoints st)"
    "k < length (lower_bounds st)" "k < length (upper_bounds st)" "k < length b"
  shows "\<exists>st'. first_update_round b m (int k) st = Inr st'"
  using assms by (simp add: first_update_round_def bnd_def py_get_nat)

lemma second_update_round_ok:
  assumes "k < length (lower_breakpoints st)" "k < length (upper_breakpoints st)"
    "k < length (lower_bounds st)" "k < length (upper_bounds st)" "k < length b"
  shows "\<exists>st'. second_update_round b m (int k) st = Inr st'"
  using assms by (simp add: second_update_round_def bnd_def py_get_nat)

lemma py_get_minus1: "xs \<noteq> [] \<Longrightarrow> py_get xs (- 1) = Inr (xs ! (length xs - 1))"
  by (cases xs) (auto simp: py_get_def py_index_def nat_diff_distrib)

lemma py_get_minus2: "2 \<le> length xs \<Longrightarrow> py_get xs (- 2) = Inr (xs ! (length xs - 2))"
  by (auto simp: py_get_def py_index_def nat_diff_distrib)

lemma new_lower_bound_eq:
  assumes "1 \<le> length lf" "k < length lv"
  shows "new_lower_bound lf lv (int k) = Inr (if length lf = 1 then lv ! k else lf ! (length lf - 2))"
  using assms by (auto simp: new_lower_bound_def py_get_nat py_get_minus2)

lemma recompute_bounds_eq:
  assumes "k < length (lower_breakpoints st)" "k < length (upper_breakpoints st)"
    "k < length (lower_bounds st)" "k < length (upper_bounds st)" "k < length b"
    "1 \<le> length lf" "uf \<noteq> []" "k < length lv"
  shows "recompute_bounds b lf uf lv (int k) st =
     Inr (st\<lparr>HELP_feasible_check_lower := HELP_feasible_check_lower st - lower_bounds st ! k
                  + (if length lf = 1 then lv ! k else lf ! (length lf - 2)),
             HELP_feasible_check_upper := HELP_feasible_check_upper st - upper_bounds st ! k
                  + uf ! (length uf - 1),
             lower_breakpoints := (lower_breakpoints st)
                  [k := (if length lf = 1 then lv ! k else lf ! (length lf - 2)) + b ! k],
             upper_breakpoints := (upper_breakpoints st)[k := uf ! (length uf - 1) + b ! k],
             lower_bounds := (lower_bounds st)
                  [k := (if length lf = 1 then lv ! k else lf ! (length lf - 2))],
             upper_bounds := (upper_bounds st)[k := uf ! (length uf - 1)]\<rparr>)"
  using assms
  by (simp add: recompute_bounds_def bnd_def py_get_nat py_set_nat new_lower_bound_eq py_get_minus1)

lemma segment_of_snoc:
  "segment_of (trunk @ [c]) k = length (filter (\<lambda>q. q < int k) trunk) + (if c < int k then 1 else 0)"
  by (simp add: segment_of_def)

lemma partition_lower_advance:
  assumes "\<forall>q\<in>set trunk. q \<le> c" "- 1 \<le> c" "c + 1 < int n"
    and "length trunk = m - 2" "2 \<le> m" "length lf = m - 1"
  shows "partition_lower lf lv (trunk @ [c + 1]) n =
           (partition_lower lf lv (trunk @ [c]) n)
             [nat (c + 1) := (if length lf = 1 then lv ! nat (c + 1) else lf ! (length lf - 2))]"
proof (rule nth_equalityI)
  show "length (partition_lower lf lv (trunk @ [c + 1]) n) =
        length ((partition_lower lf lv (trunk @ [c]) n)
             [nat (c + 1) := (if length lf = 1 then lv ! nat (c + 1) else lf ! (length lf - 2))])"
    by (simp add: partition_lower_def)
next
  fix k assume "k < length (partition_lower lf lv (trunk @ [c + 1]) n)"
  then have k: "k < n" by (simp add: partition_lower_def)
  show "partition_lower lf lv (trunk @ [c + 1]) n ! k =
        (partition_lower lf lv (trunk @ [c]) n)
             [nat (c + 1) := (if length lf = 1 then lv ! nat (c + 1) else lf ! (length lf - 2))] ! k"
  proof (cases "k = nat (c + 1)")
    case True
    with assms(2) have ik: "int k = c + 1" by simp
    with assms(1) have "filter (\<lambda>q. q < int k) trunk = trunk"
      by (auto simp: filter_id_conv)
    with ik assms(4) have s: "segment_of (trunk @ [c + 1]) k = m - 2"
      by (simp add: segment_of_snoc)
    have "interval_lower lf lv k (m - 2) = (if length lf = 1 then lv ! k else lf ! (length lf - 2))"
      using assms(5,6) by (auto simp: interval_lower_def numeral_2_eq_2 numeral_3_eq_3)
    with s k True show ?thesis by (simp add: partition_lower_def)
  next
    case False
    with assms(2) have "int k \<noteq> c + 1" by auto
    then have "(c < int k) = (c + 1 < int k)" by auto
    then have "segment_of (trunk @ [c + 1]) k = segment_of (trunk @ [c]) k"
      by (simp add: segment_of_snoc)
    with k False show ?thesis by (simp add: partition_lower_def)
  qed
qed

lemma partition_upper_advance:
  assumes "\<forall>q\<in>set trunk. q \<le> c" "- 1 \<le> c" "c + 1 < int n"
    and "length trunk = m - 2" "2 \<le> m" "length uf = m - 1"
  shows "partition_upper uf uv (trunk @ [c + 1]) n =
           (partition_upper uf uv (trunk @ [c]) n)[nat (c + 1) := uf ! (length uf - 1)]"
proof (rule nth_equalityI)
  show "length (partition_upper uf uv (trunk @ [c + 1]) n) =
        length ((partition_upper uf uv (trunk @ [c]) n)[nat (c + 1) := uf ! (length uf - 1)])"
    by (simp add: partition_upper_def)
next
  fix k assume "k < length (partition_upper uf uv (trunk @ [c + 1]) n)"
  then have k: "k < n" by (simp add: partition_upper_def)
  show "partition_upper uf uv (trunk @ [c + 1]) n ! k =
        (partition_upper uf uv (trunk @ [c]) n)[nat (c + 1) := uf ! (length uf - 1)] ! k"
  proof (cases "k = nat (c + 1)")
    case True
    with assms(2) have ik: "int k = c + 1" by simp
    with assms(1) have "filter (\<lambda>q. q < int k) trunk = trunk"
      by (auto simp: filter_id_conv)
    with ik assms(4) have s: "segment_of (trunk @ [c + 1]) k = m - 2"
      by (simp add: segment_of_snoc)
    have "interval_upper uf uv k (m - 2) = uf ! (length uf - 1)"
      using assms(5,6) by (auto simp: interval_upper_def numeral_2_eq_2)
    with s k True show ?thesis by (simp add: partition_upper_def)
  next
    case False
    with assms(2) have "int k \<noteq> c + 1" by auto
    then have "(c < int k) = (c + 1 < int k)" by auto
    then have "segment_of (trunk @ [c + 1]) k = segment_of (trunk @ [c]) k"
      by (simp add: segment_of_snoc)
    with k False show ?thesis by (simp add: partition_upper_def)
  qed
qed

text \<open>The best record is still the one of lines 56--58.\<close>

definition no_best :: "state \<Rightarrow> bool" where
  "no_best st = (best_fields st = (None, None, None))"

text \<open>
  What holds at the head of the cursor loop: the current partition is the trunk followed
  by the cursor, the cursor is at or after the trunk's last boundary and before
  \<open>num_var\<close>, the bounds are the bound assignment of that partition, and the running
  feasibility sums are the sums of the bounds.
\<close>

definition sweep_inv :: "real list \<Rightarrow> real list \<Rightarrow> real list \<Rightarrow> real list \<Rightarrow> real list
    \<Rightarrow> int list \<Rightarrow> state \<Rightarrow> bool" where
  "sweep_inv b lf uf lv uv trunk st =
     (list_all (\<lambda>q. q \<le> cursor st) trunk \<and> - 1 \<le> cursor st \<and> cursor st < int (length b)
      \<and> cur_partition st = trunk @ [cursor st]
      \<and> lower_bounds st = partition_lower lf lv (trunk @ [cursor st]) (length b)
      \<and> upper_bounds st = partition_upper uf uv (trunk @ [cursor st]) (length b)
      \<and> HELP_feasible_check_lower st = sum_list (lower_bounds st)
      \<and> HELP_feasible_check_upper st = sum_list (upper_bounds st)
      \<and> length (lower_breakpoints st) = length b
      \<and> length (upper_breakpoints st) = length b)"

text \<open>
  The resource lies below the sum of the lower bounds of a partition or above the sum of
  its upper bounds.
\<close>

definition outside :: "real \<Rightarrow> real list \<Rightarrow> real list \<Rightarrow> real list \<Rightarrow> real list \<Rightarrow> nat \<Rightarrow> int list \<Rightarrow> bool" where
  "outside R lf uf lv uv n p =
     (R < sum_list (partition_lower lf lv p n) \<or> sum_list (partition_upper uf uv p n) < R)"

lemma init_trunk_inv:
  assumes m: "2 \<le> m" and len: "length lf = m - 1" "length uf = m - 1"
      "length lv = length b" "length uv = length b"
    and t: "trunk_ok (length b) m trunk"
  shows "\<exists>st1. init_trunk b lf uf lv uv trunk st = Inr st1 \<and> sweep_inv b lf uf lv uv trunk st1
           \<and> cursor st1 = seed_cursor trunk \<and> best_fields st1 = best_fields st"
proof -
  have mi: "int (length lf) + 1 = int m" using m len by simp
  note c = seed_cursor_props [OF t]
  from sweep_lower_bounds_seed [OF m len(1) len(3) t] sweep_upper_bounds_seed [OF m len(2) len(4) t]
  show ?thesis
    using c
    by (simp add: init_trunk_def Let_def mi bnd_def sweep_inv_def cursor_def cur_partition_def
          partition_seed_eq best_fields_def list_all_iff)
qed

lemma advance_cursor_fields:
  "cur_partition (advance_cursor st) = butlast (cur_partition st) @ [cursor st + 1]"
  "lower_bounds (advance_cursor st) = lower_bounds st"
  "upper_bounds (advance_cursor st) = upper_bounds st"
  "lower_breakpoints (advance_cursor st) = lower_breakpoints st"
  "upper_breakpoints (advance_cursor st) = upper_breakpoints st"
  "HELP_feasible_check_lower (advance_cursor st) = HELP_feasible_check_lower st"
  "HELP_feasible_check_upper (advance_cursor st) = HELP_feasible_check_upper st"
  "best_fields (advance_cursor st) = best_fields st"
  by (simp_all add: advance_cursor_def cur_partition_def cursor_def best_fields_def Let_def)

lemma scan_frame_cur_partition: "scan_frame st st' \<Longrightarrow> cur_partition st' = cur_partition st"
  by (simp add: cur_partition_def scan_frame_fields)

lemma update_partition_inv:
  assumes inv: "sweep_inv b lf uf lv uv trunk st"
    and m: "2 \<le> m" and len: "length lf = m - 1" "length uf = m - 1"
      "length lv = length b" "length uv = length b" "length trunk = m - 2"
  shows "\<exists>fl st'. update_partition b lf uf lv Opt_mult st = Inr (fl, st')
           \<and> best_fields st' = best_fields st
           \<and> (fl = Continue \<longrightarrow> sweep_inv b lf uf lv uv trunk st')"
proof (cases "cursor st + 1 \<ge> int (length b)")
  case True
  then have "update_partition b lf uf lv Opt_mult st = Inr (Break, advance_cursor st)"
    by (simp add: update_partition_def Let_def advance_cursor_cursor)
  moreover have "best_fields (advance_cursor st) = best_fields st"
    by (simp add: advance_cursor_fields)
  ultimately show ?thesis by simp
next
  case False
  define c where "c = cursor st"
  define k where "k = nat (c + 1)"
  define sa where "sa = advance_cursor st"
  from inv have c1: "- 1 \<le> c" and tr: "\<forall>q\<in>set trunk. q \<le> c"
    and cp: "cur_partition st = trunk @ [c]"
    and lb: "lower_bounds st = partition_lower lf lv (trunk @ [c]) (length b)"
    and ub: "upper_bounds st = partition_upper uf uv (trunk @ [c]) (length b)"
    and fl: "HELP_feasible_check_lower st = sum_list (lower_bounds st)"
    and fu: "HELP_feasible_check_upper st = sum_list (upper_bounds st)"
    and lbp: "length (lower_breakpoints st) = length b"
    and ubp: "length (upper_breakpoints st) = length b"
    by (simp_all add: sweep_inv_def c_def list_all_iff)
  from False c1 have k: "int k = c + 1" "k < length b" by (simp_all add: k_def c_def)
  have ca: "cursor sa = int k" by (simp add: sa_def advance_cursor_cursor k c_def)
  have la: "k < length (lower_breakpoints sa)" "k < length (upper_breakpoints sa)"
    "k < length (lower_bounds sa)" "k < length (upper_bounds sa)"
    using k lbp ubp lb ub
    by (simp_all add: sa_def advance_cursor_fields partition_lower_def partition_upper_def)
  from first_update_round_ok [OF la k(2)] obtain s1 where
    r1: "first_update_round b Opt_mult (int k) sa = Inr s1" by blast
  note f1 = scan_frame_fields [OF first_update_round_frame [OF r1]]
  have l1: "k < length (lower_breakpoints s1)" "k < length (upper_breakpoints s1)"
    "k < length (lower_bounds s1)" "k < length (upper_bounds s1)"
    using la f1 by simp_all
  have lf1: "1 \<le> length lf" "uf \<noteq> []" "k < length lv"
    using m len k by auto
  define lnew where "lnew = (if length lf = 1 then lv ! k else lf ! (length lf - 2))"
  define unew where "unew = uf ! (length uf - 1)"
  define s2 where "s2 = s1\<lparr>HELP_feasible_check_lower := HELP_feasible_check_lower s1 - lower_bounds s1 ! k + lnew,
             HELP_feasible_check_upper := HELP_feasible_check_upper s1 - upper_bounds s1 ! k + unew,
             lower_breakpoints := (lower_breakpoints s1)[k := lnew + b ! k],
             upper_breakpoints := (upper_breakpoints s1)[k := unew + b ! k],
             lower_bounds := (lower_bounds s1)[k := lnew],
             upper_bounds := (upper_bounds s1)[k := unew]\<rparr>"
  have r2: "recompute_bounds b lf uf lv (int k) s1 = Inr s2"
    unfolding s2_def lnew_def unew_def
    by (rule recompute_bounds_eq [OF l1 k(2) lf1])
  have l2: "k < length (lower_breakpoints s2)" "k < length (upper_breakpoints s2)"
    "k < length (lower_bounds s2)" "k < length (upper_bounds s2)"
    using l1 by (simp_all add: s2_def)
  from second_update_round_ok [OF l2 k(2)] obtain s3 where
    r3: "second_update_round b Opt_mult (int k) s2 = Inr s3" by blast
  note f3 = scan_frame_fields [OF second_update_round_frame [OF r3]]
  have up: "update_partition b lf uf lv Opt_mult st = Inr (Continue, s3)"
    using False r1 r2 r3 ca k
    by (simp add: update_partition_def Let_def bnd_def sa_def [symmetric])
  have cp3: "cur_partition s3 = trunk @ [c + 1]"
  proof -
    have "cur_partition s3 = cur_partition s2"
      by (rule scan_frame_cur_partition [OF second_update_round_frame [OF r3]])
    also have "\<dots> = cur_partition s1" by (simp add: s2_def cur_partition_def)
    also have "\<dots> = cur_partition sa"
      by (rule scan_frame_cur_partition [OF first_update_round_frame [OF r1]])
    also have "\<dots> = trunk @ [c + 1]"
      by (simp add: sa_def advance_cursor_fields cp c_def [symmetric])
    finally show ?thesis .
  qed
  then have c3: "cursor s3 = c + 1" by (simp add: cursor_def)
  have lb3: "lower_bounds s3 = (lower_bounds st)[k := lnew]"
    using f3 f1 by (simp add: s2_def sa_def advance_cursor_fields)
  have ub3: "upper_bounds s3 = (upper_bounds st)[k := unew]"
    using f3 f1 by (simp add: s2_def sa_def advance_cursor_fields)
  have pl: "partition_lower lf lv (trunk @ [c + 1]) (length b) = (lower_bounds st)[k := lnew]"
    unfolding lb lnew_def k_def
    using tr c1 k len m by (intro partition_lower_advance [where m = m]) auto
  have pu: "partition_upper uf uv (trunk @ [c + 1]) (length b) = (upper_bounds st)[k := unew]"
    unfolding ub unew_def k_def
    using tr c1 k len m by (intro partition_upper_advance [where m = m]) auto
  have kl: "k < length (lower_bounds st)" "k < length (upper_bounds st)"
    using la by (simp_all add: sa_def advance_cursor_fields)
  have fl3: "HELP_feasible_check_lower s3 = sum_list (lower_bounds s3)"
    using f3 f1 fl kl
    by (simp add: lb3 s2_def sa_def advance_cursor_fields sum_list_update_real)
  have fu3: "HELP_feasible_check_upper s3 = sum_list (upper_bounds s3)"
    using f3 f1 fu kl
    by (simp add: ub3 s2_def sa_def advance_cursor_fields sum_list_update_real)
  have len3: "length (lower_breakpoints s3) = length b" "length (upper_breakpoints s3) = length b"
    using f3 f1 lbp ubp by (simp_all add: s2_def sa_def advance_cursor_fields)
  have bf3: "best_fields s3 = best_fields st"
  proof -
    have "best_fields s3 = best_fields s2" by (rule f3(9))
    also have "\<dots> = best_fields s1" by (simp add: s2_def best_fields_def)
    also have "\<dots> = best_fields sa" by (rule f1(9))
    also have "\<dots> = best_fields st" by (simp add: sa_def advance_cursor_fields)
    finally show ?thesis .
  qed
  have "sweep_inv b lf uf lv uv trunk s3"
    unfolding sweep_inv_def
    using tr c1 k c3 cp3 lb3 ub3 pl pu fl3 fu3 len3
    by (auto simp: list_all_iff)
  with up bf3 show ?thesis by simp
qed

lemma sweep_inv_scanned:
  assumes "sweep_inv b lf uf lv uv trunk st" and "scan_frame st st1"
  shows "sweep_inv b lf uf lv uv trunk (compare_best Opt_mult Obj_value st1)"
proof -
  note f = scan_frame_fields [OF assms(2)]
  have c: "cur_partition st1 = cur_partition st" "cursor st1 = cursor st"
    using assms(2) by (simp_all add: scan_frame_cur_partition scan_frame_cursor)
  have "sweep_inv b lf uf lv uv trunk st1"
    using assms(1) f c by (simp add: sweep_inv_def)
  then show ?thesis
    by (simp add: sweep_inv_def compare_best_def cursor_def cur_partition_def)
qed

lemma window_inv:
  assumes inv: "sweep_inv b lf uf lv uv trunk st"
    and m: "2 \<le> m" and len: "length lf = m - 1" "length uf = m - 1"
      "length lv = length b" "length uv = length b" "length trunk = m - 2"
    and w: "window R b lf uf lv st = Inr (Continue, st')"
  shows "sweep_inv b lf uf lv uv trunk st'"
proof -
  from w obtain Opt_mult s where
    e: "evaluate_window R b st = Inr (Some (Opt_mult, s))"
    and u: "update_partition b lf uf lv Opt_mult s = Inr (Continue, st')"
    by (auto simp: window_def bnd_def split: sum.splits option.splits)
  have "sweep_inv b lf uf lv uv trunk s"
  proof (cases "HELP_feasible_check_lower st > R")
    case True
    with e inv show ?thesis by (simp add: evaluate_window_def)
  next
    case False
    with e obtain v Obj_value st1 where sc: "scan R b st = Inr (v, Obj_value, st1)"
      and s: "s = compare_best v Obj_value st1"
      by (auto simp: evaluate_window_def bnd_def split: if_splits sum.splits)
    from sweep_inv_scanned [OF inv scan_frame [OF sc]] s show ?thesis by simp
  qed
  from update_partition_inv [OF this m len, of Opt_mult] u show ?thesis by simp
qed


lemma window_outside:
  assumes inv: "sweep_inv b lf uf lv uv trunk st"
    and m: "2 \<le> m" and len: "length lf = m - 1" "length uf = m - 1"
      "length lv = length b" "length uv = length b" "length trunk = m - 2"
    and out: "outside R lf uf lv uv (length b) (trunk @ [cursor st])"
    and nb: "no_best st"
  shows "\<exists>fl st'. window R b lf uf lv st = Inr (fl, st') \<and> no_best st'
           \<and> (fl = Continue \<longrightarrow> sweep_inv b lf uf lv uv trunk st')"
proof (cases "HELP_feasible_check_lower st > R")
  case True
  then have "window R b lf uf lv st = update_partition b lf uf lv NegInf st"
    by (simp add: window_def evaluate_window_def bnd_def)
  with update_partition_inv [OF inv m len, of NegInf] nb show ?thesis
    by (auto simp: no_best_def)
next
  case False
  with inv out have "HELP_feasible_check_upper st < R"
    by (simp add: sweep_inv_def outside_def)
  with False have "window R b lf uf lv st = Inr (Break, st)"
    by (simp add: window_def evaluate_window_def bnd_def)
  with nb show ?thesis by simp
qed

lemma sweep_outside:
  assumes m: "2 \<le> m" and len: "length lf = m - 1" "length uf = m - 1"
      "length lv = length b" "length uv = length b" "length trunk = m - 2"
    and inv: "sweep_inv b lf uf lv uv trunk st"
    and out: "\<forall>c. cursor st \<le> c \<and> c < int (length b) \<longrightarrow> outside R lf uf lv uv (length b) (trunk @ [c])"
    and nb: "no_best st"
  shows "\<exists>st'. sweep R b lf uf lv st = Inr st' \<and> no_best st'"
  using inv out nb
proof (induction "nat (int (length b) - cursor st)" arbitrary: st rule: less_induct)
  case less
  from less.prems(1) have c: "cursor st < int (length b)" by (simp add: sweep_inv_def)
  with less.prems(2) have "outside R lf uf lv uv (length b) (trunk @ [cursor st])" by simp
  from window_outside [OF less.prems(1) m len this less.prems(3)] obtain fl st' where
    w: "window R b lf uf lv st = Inr (fl, st')" and nb: "no_best st'"
    and i: "fl = Continue \<longrightarrow> sweep_inv b lf uf lv uv trunk st'" by blast
  show ?case
  proof (cases fl)
    case Break
    with w c nb show ?thesis by (simp add: sweep.simps)
  next
    case Continue
    with w have c': "cursor st' = cursor st + 1" by (simp add: window_cursor)
    from Continue i have inv': "sweep_inv b lf uf lv uv trunk st'" by simp
    have "\<exists>st''. sweep R b lf uf lv st' = Inr st'' \<and> no_best st''"
      using c c' inv' nb less.prems(2) by (intro less.hyps) auto
    with w c Continue show ?thesis by (simp add: sweep.simps)
  qed
qed

lemma trunks_loop_outside:
  assumes m: "2 \<le> m" and len: "length lf = m - 1" "length uf = m - 1"
      "length lv = length b" "length uv = length b"
    and ts: "\<forall>trunk\<in>set trunks. trunk_ok (length b) m trunk
               \<and> (\<forall>c. seed_cursor trunk \<le> c \<and> c < int (length b)
                      \<longrightarrow> outside R lf uf lv uv (length b) (trunk @ [c]))"
    and nb: "no_best st"
  shows "\<exists>st'. trunks_loop R b lf uf lv uv trunks st = Inr st' \<and> no_best st'"
  using ts nb
proof (induction trunks arbitrary: st)
  case Nil
  then show ?case by simp
next
  case (Cons trunk trunks)
  from Cons.prems(1) have t: "trunk_ok (length b) m trunk"
    and o: "\<forall>c. seed_cursor trunk \<le> c \<and> c < int (length b)
                      \<longrightarrow> outside R lf uf lv uv (length b) (trunk @ [c])"
    by simp_all
  from init_trunk_inv [OF m len t] obtain st1 where
    i: "init_trunk b lf uf lv uv trunk st = Inr st1" and inv: "sweep_inv b lf uf lv uv trunk st1"
    and c: "cursor st1 = seed_cursor trunk" and bf: "best_fields st1 = best_fields st" by blast
  from bf Cons.prems(2) have nb1: "no_best st1" by (simp add: no_best_def)
  from t have lt: "length trunk = m - 2" by (simp add: trunk_ok_def)
  from sweep_outside [OF m len lt inv _ nb1] o c obtain st2 where
    s: "sweep R b lf uf lv st1 = Inr st2" and nb2: "no_best st2" by auto
  from Cons.IH [OF _ nb2] Cons.prems(1) obtain st3 where
    "trunks_loop R b lf uf lv uv trunks st2 = Inr st3" "no_best st3" by auto
  with i s show ?case by (simp add: bnd_def)
qed

text \<open>
  All partitions: the non-decreasing sequences of \<open>m - 1\<close> boundaries drawn from
  \<open>-1, \<dots>, n - 1\<close>.
\<close>

definition all_partitions :: "nat \<Rightarrow> nat \<Rightarrow> int list list" where
  "all_partitions n m = combinations_with_replacement (py_range (- 1) (int n)) (m - 1)"

text \<open>
  C3, as the code has it. The routine has no outcome of its own for an infeasible
  instance. With at least two intervals and input lists of matching lengths, if for
  every partition the resource lies below the sum of the lower bounds or above the sum
  of the upper bounds, no window reaches the scan, \<open>current_best_partition\<close> stays
  \<^verbatim>\<open>None\<close>, and the routine raises \<^verbatim>\<open>TypeError\<close> at line 244; no vector is returned.
\<close>

theorem C3_no_feasible_window_TypeError:
  assumes m: "2 \<le> m" and len: "length lower_fixed = m - 1" "length upper_fixed = m - 1"
      "length lower_var = length b" "length upper_var = length b"
    and outs: "list_all (outside R lower_fixed upper_fixed lower_var upper_var (length b))
                (all_partitions (length b) m)"
  shows "RAP_disjoint R b lower_fixed upper_fixed lower_var upper_var = Inl TypeError"
proof -
  from outs have out: "\<forall>p\<in>set (all_partitions (length b) m).
                outside R lower_fixed upper_fixed lower_var upper_var (length b) p"
    by (simp add: list_all_iff)
  define trunks where
    "trunks = combinations_with_replacement (py_range (- 1) (int (length b))) (m - 2)"
  have ts: "\<forall>trunk\<in>set trunks. trunk_ok (length b) m trunk
               \<and> (\<forall>c. seed_cursor trunk \<le> c \<and> c < int (length b)
                      \<longrightarrow> outside R lower_fixed upper_fixed lower_var upper_var (length b) (trunk @ [c]))"
  proof (intro ballI conjI allI impI)
    fix trunk assume "trunk \<in> set trunks"
    then have t: "length trunk = m - 2" "sorted trunk" "\<forall>q\<in>set trunk. - 1 \<le> q \<and> q < int (length b)"
      by (simp_all add: trunks_def trunk_iff)
    then show ok: "trunk_ok (length b) m trunk" by (simp add: trunk_ok_def list_all_iff)
    fix c assume c: "seed_cursor trunk \<le> c \<and> c < int (length b)"
    from seed_cursor_props [OF ok] c have "\<forall>q\<in>set trunk. q \<le> c" "- 1 \<le> c" by auto
    with t c m have "trunk @ [c] \<in> set (all_partitions (length b) m)"
      by (auto simp: all_partitions_def trunk_iff sorted_append)
    with out show "outside R lower_fixed upper_fixed lower_var upper_var (length b) (trunk @ [c])"
      by simp
  qed
  have nb: "no_best initial_state"
    by (simp add: no_best_def best_fields_def initial_state_def)
  from trunks_loop_outside [OF m len ts nb] obtain st where
    l: "trunks_loop R b lower_fixed upper_fixed lower_var upper_var trunks initial_state = Inr st"
    and n: "no_best st" by blast
  have "nat (int (length lower_fixed) + 1 - 2) = m - 2" using m len by simp
  with l m len have "enumerate R b lower_fixed upper_fixed lower_var upper_var = Inr st"
    by (simp add: enumerate_def Let_def trunks_def)
  with n show ?thesis
    by (simp add: RAP_disjoint_def bnd_def Final_solution_def Let_def no_best_def best_fields_def)
qed

text \<open>
  The statement at an instance of two variables in \<open>{0} \<union> [2, 4]\<close> with \<open>R = 100\<close>, above
  every sum of upper bounds.
\<close>

theorem C3_witness:
  "list_all (outside 100 [2] [0] [0, 0] [4, 4] 2) (all_partitions 2 2)
   \<and> RAP_disjoint 100 [0, 0] [2] [0] [0, 0] [4, 4] = Inl TypeError"
proof -
  have o: "list_all (outside 100 [2] [0] [0, 0] [4, 4] 2) (all_partitions 2 2)"
    by code_simp
  have l: "length [0, 0 :: real] = 2" by simp
  have "RAP_disjoint 100 [0, 0] [2] [0] [0, 0] [4, 4] = Inl TypeError"
  proof (rule C3_no_feasible_window_TypeError [where m = 2])
    show "list_all (outside 100 [2] [0] [0, 0] [4, 4] (length [0, 0 :: real]))
            (all_partitions (length [0, 0 :: real]) 2)"
      unfolding l by (rule o)
  qed simp_all
  with o show ?thesis by simp
qed

text \<open>
  C3 as claimed (a distinct outcome for infeasible instances) fails for a single
  interval: with \<open>b = [3, 1]\<close> and bounds \<open>[-5, 5]\<close> the resource 100 lies above the sum of
  the upper bounds of the only partition, the resource 0 is feasible, and the routine
  ends both calls with the same \<^verbatim>\<open>ValueError\<close>.
\<close>

theorem C3_counterexample:
  "list_all (outside 100 [] [] [-5, -5] [5, 5] 2) (all_partitions 2 1)
   \<and> RAP_disjoint 100 [3, 1] [] [] [-5, -5] [5, 5] = Inl ValueError
   \<and> feasible 0 [3, 1] [] [] [-5, -5] [5, 5] [-1, 1]
   \<and> RAP_disjoint 0 [3, 1] [] [] [-5, -5] [5, 5] = Inl ValueError"
  by code_simp

section \<open>Further properties of the enumeration and the sweep\<close>

text \<open>
  The trunks that line 53 produces for \<open>n\<close> variables are exactly the non-decreasing
  sequences of the requested length over \<open>-1, \<dots>, n - 1\<close>.
\<close>

theorem trunks_are_nondecreasing_sequences:
  "(t \<in> set (combinations_with_replacement (py_range (- 1) (int n)) r))
     = (length t = r \<and> sorted t \<and> list_all (\<lambda>q. - 1 \<le> q \<and> q < int n) t)"
  by (simp add: trunk_iff list_all_iff)

text \<open>
  At the start of a trunk (lines 62--106) the bounds are the bound assignment of the
  seed partition, and the two running feasibility sums are the sums of these bounds.
\<close>

theorem init_trunk_bound_assignment:
  assumes "2 \<le> m" and "length lower_fixed = m - 1" and "length upper_fixed = m - 1"
    and "length lower_var = length b" and "length upper_var = length b"
    and "trunk \<in> set (combinations_with_replacement (py_range (- 1) (int (length b))) (m - 2))"
  shows "\<exists>st1. init_trunk b lower_fixed upper_fixed lower_var upper_var trunk st = Inr st1
           \<and> cur_partition st1 = partition_seed trunk
           \<and> lower_bounds st1 = partition_lower lower_fixed lower_var (partition_seed trunk) (length b)
           \<and> upper_bounds st1 = partition_upper upper_fixed upper_var (partition_seed trunk) (length b)
           \<and> HELP_feasible_check_lower st1 = sum_list (lower_bounds st1)
           \<and> HELP_feasible_check_upper st1 = sum_list (upper_bounds st1)"
proof -
  from assms(6) have "trunk_ok (length b) m trunk"
    by (simp add: trunk_iff trunk_ok_def list_all_iff)
  from init_trunk_inv [OF assms(1-5) this, of st] show ?thesis
    by (auto simp: sweep_inv_def partition_seed_eq)
qed

theorem init_trunk_bound_assignment_witness:
  "\<exists>st1. init_trunk [1, 0] [2] [1] [0, 0] [10, 10] [] initial_state = Inr st1
     \<and> cur_partition st1 = [- 1]
     \<and> lower_bounds st1 = [2, 2] \<and> upper_bounds st1 = [10, 10]
     \<and> HELP_feasible_check_lower st1 = 4 \<and> HELP_feasible_check_upper st1 = 20"
proof -
  have t: "[] \<in> set (combinations_with_replacement (py_range (- 1) (int (length [1, 0 :: real]))) (2 - 2))"
    by simp
  have e: "partition_seed [] = [- 1]"
    "partition_lower [2] [0, 0] [- 1] (length [1, 0 :: real]) = [2, 2]"
    "partition_upper [1] [10, 10] [- 1] (length [1, 0 :: real]) = [10, 10]"
    by code_simp+
  from init_trunk_bound_assignment [where m = 2, OF _ _ _ _ _ t,
      of "[2]" "[1]" "[0, 0]" "[10, 10]" initial_state] e
  show ?thesis by auto
qed

text \<open>
  One pass of the cursor loop that goes on (lines 110--239) keeps this: with the cursor
  moved by one, the bounds are again the bound assignment of the current partition and
  the running feasibility sums are their sums, whatever the scan did in between.
\<close>

theorem window_keeps_bound_assignment:
  assumes "sweep_inv b lower_fixed upper_fixed lower_var upper_var trunk st"
    and "2 \<le> m" and "length lower_fixed = m - 1" and "length upper_fixed = m - 1"
    and "length lower_var = length b" and "length upper_var = length b"
    and "length trunk = m - 2"
    and "window R b lower_fixed upper_fixed lower_var st = Inr (Continue, st')"
  shows "cursor st' = cursor st + 1
     \<and> cur_partition st' = trunk @ [cursor st']
     \<and> lower_bounds st' = partition_lower lower_fixed lower_var (trunk @ [cursor st']) (length b)
     \<and> upper_bounds st' = partition_upper upper_fixed upper_var (trunk @ [cursor st']) (length b)
     \<and> HELP_feasible_check_lower st' = sum_list (lower_bounds st')
     \<and> HELP_feasible_check_upper st' = sum_list (upper_bounds st')"
  using window_inv [OF assms] window_cursor [OF assms(8)]
  by (simp add: sweep_inv_def)

theorem window_keeps_bound_assignment_witness:
  "\<exists>st'. window 6 [1, 0] [2] [1] [0, 0] (first_state [1, 0] [2] [1] [0, 0] [10, 10]) = Inr (Continue, st')
     \<and> cursor st' = 0 \<and> cur_partition st' = [0]
     \<and> lower_bounds st' = [0, 2] \<and> upper_bounds st' = [1, 10]
     \<and> HELP_feasible_check_lower st' = 2 \<and> HELP_feasible_check_upper st' = 11"
proof -
  let ?st = "first_state [1, 0] [2] [1] [0, 0] [10, 10]"
  have ok: "trunk_ok (length [1, 0 :: real]) 2 []" by (simp add: trunk_ok_def)
  from init_trunk_inv [where m = 2, OF _ _ _ _ _ ok, of "[2]" "[1]" "[0, 0]" "[10, 10]" initial_state]
  have inv: "sweep_inv [1, 0] [2] [1] [0, 0] [10, 10] [] ?st"
    by (auto simp: first_state_def)
  have "map_sum id fst (window 6 [1, 0] [2] [1] [0, 0] ?st) = Inr Continue"
    by code_simp
  then obtain st' where w: "window 6 [1, 0] [2] [1] [0, 0] ?st = Inr (Continue, st')"
    by (cases "window 6 [1, 0] [2] [1] [0, 0] ?st") auto
  have c: "cursor ?st = - 1" by code_simp
  have e: "partition_lower [2] [0, 0] [0] (length [1, 0 :: real]) = [0, 2]"
    "partition_upper [1] [10, 10] [0] (length [1, 0 :: real]) = [1, 10]"
    by code_simp+
  from window_keeps_bound_assignment [where m = 2, OF inv _ _ _ _ _ _ w] c e w
  show ?thesis by auto
qed

end
